theory Spec2Isabelle
  imports Complex_Main "HOL-Library.Monad_Syntax"
begin

section \<open>Conventions of the embedding\<close>

text \<open>
  The development embeds the granular synthesis external (\<^verbatim>\<open>granular.c\<close>) and its
  array-encoded linked list (\<^verbatim>\<open>linked_list.h\<close>, \<^verbatim>\<open>linked_list.c\<close>).

  \<^item> A C array reached through a pointer is a store: a function from the cell offset
    (an \<^typ>\<open>int\<close>) to the cell's content. A pointer into the array is the offset of
    the cell it addresses, so \<^verbatim>\<open>*node\<close> is \<open>array list node\<close> and
    \<^verbatim>\<open>list->array + *node\<close> is the offset \<open>array list node\<close>. A write outside the
    allocated cells is a write to the store at that offset.
  \<^item> \<^verbatim>\<open>t_int16\<close> and \<^verbatim>\<open>t_int32\<close> values are integers. In the control path, the
    spawn and the scheduler the narrowing casts and the 32-bit results are written out
    (\<open>int16_of\<close>, \<open>int32_of\<close>, \<open>c_trunc32\<close>); the indices of the linked list and the
    cursors and counters of the render loop are used as mathematical integers.
  \<^item> \<^verbatim>\<open>t_double\<close> and \<^verbatim>\<open>float\<close> values are real numbers; the cast of a double
    to an integer truncates towards zero (\<open>c_trunc\<close>). The rounding of the doubles is
    not modelled: where the exact product is an integer, or next to one, the truncation
    in the code can differ by one from the value here.
  \<^item> A \<^verbatim>\<open>while\<close> loop whose exit depends on the data is a
    \<^theory_text>\<open>partial_function (option)\<close>: \<open>None\<close> is a loop that never exits.
  \<^item> A local variable of the source that has the name of a structure field carries a
    prime (\<open>out_len'\<close> is the local \<^verbatim>\<open>out_len\<close> of \<^verbatim>\<open>granular_perform64\<close>); the
    fields of \<^verbatim>\<open>t_grain\<close> that share a name with a field of \<^verbatim>\<open>t_seeder\<close> carry the
    prefix \<open>g_\<close>.
\<close>

section \<open>The linked list (linked\_list.h, linked\_list.c)\<close>

subsection \<open>Return codes and the list structure\<close>

definition LIST_END :: int where "LIST_END = -1"
definition LIST_ERR_FULL :: int where "LIST_ERR_FULL = -2"
definition LIST_ERR_EMPTY :: int where "LIST_ERR_EMPTY = -3"
definition LIST_ERR_END :: int where "LIST_ERR_END = -4"
definition LIST_ERR_BEGIN :: int where "LIST_ERR_BEGIN = -5"
definition LIST_ERR_ARG :: int where "LIST_ERR_ARG = -6"
definition LIST_NOT_FOUND :: int where "LIST_NOT_FOUND = -7"

text \<open>
  \<^verbatim>\<open>t_list\<close>: the array of \<open>len + 2\<close> cells. The pointers \<^verbatim>\<open>first_used\<close> and
  \<^verbatim>\<open>first_empty\<close> are set once by \<^verbatim>\<open>list_new\<close> to \<^verbatim>\<open>array + len\<close> and
  \<^verbatim>\<open>array + len + 1\<close>, so they are the offsets \<open>len\<close> and \<open>len + 1\<close>.
\<close>

record t_list =
  len :: int
  array :: "int \<Rightarrow> int"

definition first_used :: "t_list \<Rightarrow> int" where
  "first_used list = len list"

definition first_empty :: "t_list \<Rightarrow> int" where
  "first_empty list = len list + 1"

subsection \<open>list\_new\<close>

text \<open>\<^verbatim>\<open>for (t_int16 i = 0; i < list->len - 1; i++) { list->array[i] = i + 1; }\<close>\<close>

function list_new_fill :: "int \<Rightarrow> int \<Rightarrow> (int \<Rightarrow> int) \<Rightarrow> (int \<Rightarrow> int)" where
  "list_new_fill n i a = (if i < n - 1 then list_new_fill n (i + 1) (a(i := i + 1)) else a)"
  by pat_completeness auto
termination
  by (relation "measure (\<lambda>(n, i, a). nat (n - 1 - i))") auto

declare list_new_fill.simps [simp del]

text \<open>
  \<open>mem\<close> is the content of the memory that \<^verbatim>\<open>sysmem_newptr\<close> hands out (the
  allocation itself is taken to succeed). The three writes after the loop are
  \<^verbatim>\<open>array[len - 1] = LIST_END; array[len] = LIST_END; array[len + 1] = 0;\<close>.
\<close>

definition list_new :: "(int \<Rightarrow> int) \<Rightarrow> int \<Rightarrow> t_list" where
  "list_new mem n =
     (let a0 = list_new_fill n 0 mem;
          a1 = a0(n - 1 := LIST_END);
          a2 = a1(n := LIST_END);
          a3 = a2(n + 1 := 0)
      in \<lparr>len = n, array = a3\<rparr>)"

subsection \<open>The inline operations of linked\_list.h (LIST\_SAFE is defined)\<close>

definition list_next_node :: "t_list \<Rightarrow> int \<Rightarrow> int" where
  "list_next_node list node =
     (if array list node = LIST_END then node else array list node)"

text \<open>
  Each operation returns the value the C function returns and the list after it. The
  assignments are kept in the order of the source, each reading the array the previous
  one has written.
\<close>

definition list_insert_first :: "t_list \<Rightarrow> int \<times> t_list" where
  "list_insert_first list =
     (if array list (first_empty list) = LIST_END then (LIST_ERR_FULL, list)
      else
        let tmp = array list (first_empty list);
            a1 = (array list)(first_empty list := array list tmp);
            a2 = a1(tmp := a1 (first_used list));
            a3 = a2(first_used list := tmp)
        in (tmp, list\<lparr>array := a3\<rparr>))"

definition list_insert_node :: "t_list \<Rightarrow> int \<Rightarrow> int \<times> t_list" where
  "list_insert_node list node =
     (if array list (first_empty list) = LIST_END then (LIST_ERR_FULL, list)
      else
        let tmp = array list (first_empty list);
            a1 = (array list)(first_empty list := array list tmp);
            a2 = a1(tmp := a1 node);
            a3 = a2(node := tmp)
        in (tmp, list\<lparr>array := a3\<rparr>))"

definition list_remove_first :: "t_list \<Rightarrow> int \<times> t_list" where
  "list_remove_first list =
     (if array list (first_used list) = LIST_END then (LIST_ERR_EMPTY, list)
      else
        let tmp = array list (first_used list);
            a1 = (array list)(first_used list := array list tmp);
            a2 = a1(tmp := a1 (first_empty list));
            a3 = a2(first_empty list := tmp)
        in (tmp, list\<lparr>array := a3\<rparr>))"

definition list_remove_node :: "t_list \<Rightarrow> int \<Rightarrow> int \<times> t_list" where
  "list_remove_node list node =
     (if array list (first_used list) = LIST_END then (LIST_ERR_EMPTY, list)
      else
        let tmp = array list node;
            a1 = (array list)(node := array list tmp);
            a2 = a1(tmp := a1 (first_empty list));
            a3 = a2(first_empty list := tmp)
        in (tmp, list\<lparr>array := a3\<rparr>))"

subsection \<open>The looping operations of linked\_list.c\<close>

text \<open>\<^verbatim>\<open>while (list->array + *current != node) { current = list->array + *current; }\<close>\<close>

partial_function (option) list_prev_loop :: "(int \<Rightarrow> int) \<Rightarrow> int \<Rightarrow> int \<Rightarrow> int option" where
  "list_prev_loop a node current =
     (if a current \<noteq> node then list_prev_loop a node (a current) else Some current)"

definition list_prev_node :: "t_list \<Rightarrow> int \<Rightarrow> int option" where
  "list_prev_node list node =
     (if node = first_used list then Some node
      else list_prev_loop (array list) node (first_used list))"

text \<open>\<^verbatim>\<open>while (*node != LIST_END) { node = list->array + *node; }\<close>\<close>

partial_function (option) list_last_node :: "(int \<Rightarrow> int) \<Rightarrow> int \<Rightarrow> int option" where
  "list_last_node a node =
     (if a node \<noteq> LIST_END then list_last_node a (a node) else Some node)"

definition list_insert_last :: "t_list \<Rightarrow> (int \<times> t_list) option" where
  "list_insert_last list =
     (if array list (first_empty list) = LIST_END then Some (LIST_ERR_FULL, list)
      else
        case list_last_node (array list) (first_used list) of
          None \<Rightarrow> None
        | Some node \<Rightarrow>
            let a1 = (array list)(node := array list (first_empty list));
                a2 = a1(first_empty list := a1 (a1 node));
                a3 = a2(a2 node := LIST_END)
            in Some (a3 node, list\<lparr>array := a3\<rparr>))"

text \<open>
  \<^verbatim>\<open>while ((*node != LIST_END) && (cnt > 0)) { node = list->array + *node; cnt--; }\<close>:
  the counter decreases, so the loop always exits.
\<close>

function list_nth_node :: "(int \<Rightarrow> int) \<Rightarrow> int \<Rightarrow> int \<Rightarrow> int" where
  "list_nth_node a node cnt =
     (if a node \<noteq> LIST_END \<and> cnt > 0 then list_nth_node a (a node) (cnt - 1) else node)"
  by pat_completeness auto
termination
  by (relation "measure (\<lambda>(a, node, cnt). nat cnt)") auto

declare list_nth_node.simps [simp del]

definition list_insert_nth :: "t_list \<Rightarrow> int \<Rightarrow> int \<times> t_list" where
  "list_insert_nth list n =
     (if array list (first_empty list) = LIST_END then (LIST_ERR_FULL, list)
      else
        let node = list_nth_node (array list) (first_used list) n;
            tmp = array list (first_empty list);
            a1 = (array list)(first_empty list := array list tmp);
            a2 = a1(tmp := a1 node);
            a3 = a2(node := tmp)
        in (tmp, list\<lparr>array := a3\<rparr>))"

text \<open>
  \<^verbatim>\<open>while ((*node != LIST_END) && (*node != index)) { node = list->array + *node; }\<close>
\<close>

partial_function (option) list_find_node :: "(int \<Rightarrow> int) \<Rightarrow> int \<Rightarrow> int \<Rightarrow> int option" where
  "list_find_node a node index' =
     (if a node \<noteq> LIST_END \<and> a node \<noteq> index' then list_find_node a (a node) index'
      else Some node)"

definition list_insert_index :: "t_list \<Rightarrow> int \<Rightarrow> (int \<times> t_list) option" where
  "list_insert_index list index' =
     (case list_find_node (array list) (first_empty list) index' of
        None \<Rightarrow> None
      | Some node \<Rightarrow>
          if array list node = LIST_END then Some (LIST_NOT_FOUND, list)
          else
            let a1 = (array list)(node := array list index');
                a2 = a1(index' := a1 (first_used list));
                a3 = a2(first_used list := index')
            in Some (index', list\<lparr>array := a3\<rparr>))"

text \<open>
  \<^verbatim>\<open>next = list->array + *node; while (*next != LIST_END) { node = next; next = list->array + *node; }\<close>
\<close>

partial_function (option) list_last_link :: "(int \<Rightarrow> int) \<Rightarrow> int \<Rightarrow> int \<Rightarrow> int option" where
  "list_last_link a node next =
     (if a next \<noteq> LIST_END then list_last_link a next (a next) else Some node)"

text \<open>
  \<^verbatim>\<open>list_remove_last\<close> ends with \<^verbatim>\<open>*node = LIST_END; return *node;\<close>: the value
  returned is read after the cell has been overwritten.
\<close>

definition list_remove_last :: "t_list \<Rightarrow> (int \<times> t_list) option" where
  "list_remove_last list =
     (if array list (first_used list) = LIST_END then Some (LIST_ERR_EMPTY, list)
      else
        case list_last_link (array list) (first_used list) (array list (first_used list)) of
          None \<Rightarrow> None
        | Some node \<Rightarrow>
            let a1 = (array list)(array list node := array list (first_empty list));
                a2 = a1(first_empty list := a1 node);
                a3 = a2(node := LIST_END)
            in Some (a3 node, list\<lparr>array := a3\<rparr>))"

definition list_remove_nth :: "t_list \<Rightarrow> int \<Rightarrow> int \<times> t_list" where
  "list_remove_nth list n =
     (if array list (first_used list) = LIST_END then (LIST_ERR_EMPTY, list)
      else
        let node = list_nth_node (array list) (first_used list) n
        in if array list node = LIST_END then (LIST_ERR_ARG, list)
           else
             let tmp = array list node;
                 a1 = (array list)(node := array list tmp);
                 a2 = a1(tmp := a1 (first_empty list));
                 a3 = a2(first_empty list := tmp)
             in (tmp, list\<lparr>array := a3\<rparr>))"

definition list_remove_index :: "t_list \<Rightarrow> int \<Rightarrow> (int \<times> t_list) option" where
  "list_remove_index list index' =
     (case list_find_node (array list) (first_used list) index' of
        None \<Rightarrow> None
      | Some node \<Rightarrow>
          if array list node = LIST_END then Some (LIST_NOT_FOUND, list)
          else
            let a1 = (array list)(node := array list index');
                a2 = a1(index' := a1 (first_empty list));
                a3 = a2(first_empty list := index')
            in Some (index', list\<lparr>array := a3\<rparr>))"

subsection \<open>Traversal\<close>

text \<open>
  The traversal every client of the list writes (\<^verbatim>\<open>list_post\<close>, the seeder and grain
  loops of \<^verbatim>\<open>granular_perform64\<close>):
  \<^verbatim>\<open>while (*ptr != LIST_END) { ... *ptr ...; ptr = list->array + *ptr; }\<close>.
  \<open>list_walk\<close> returns the indices it visits, in order.
\<close>

partial_function (option) list_walk :: "(int \<Rightarrow> int) \<Rightarrow> int \<Rightarrow> int list option" where
  "list_walk a ptr =
     (if a ptr \<noteq> LIST_END
      then Option.bind (list_walk a (a ptr)) (\<lambda>rest. Some (a ptr # rest))
      else Some [])"

definition used_list :: "t_list \<Rightarrow> int list option" where
  "used_list list = list_walk (array list) (first_used list)"

definition empty_list :: "t_list \<Rightarrow> int list option" where
  "empty_list list = list_walk (array list) (first_empty list)"

declare list_prev_loop.simps [code] list_last_node.simps [code] list_find_node.simps [code]
  list_last_link.simps [code] list_walk.simps [code]

text \<open>\<open>k\<close> calls of \<^verbatim>\<open>list_insert_first\<close> in a row: the values returned and the list.\<close>

fun insert_first_times :: "nat \<Rightarrow> t_list \<Rightarrow> int list \<times> t_list" where
  "insert_first_times 0 list = ([], list)"
| "insert_first_times (Suc k) list =
     (let (r, list1) = list_insert_first list;
          (rs, list2) = insert_first_times k list1
      in (r # rs, list2))"

subsection \<open>The partition of the indices\<close>

text \<open>
  \<open>seg a p xs q\<close>: starting at cell \<open>p\<close>, the links of \<open>a\<close> visit the indices \<open>xs\<close>
  in order, and the last cell visited holds \<open>q\<close>.
\<close>

primrec seg :: "(int \<Rightarrow> int) \<Rightarrow> int \<Rightarrow> int list \<Rightarrow> int \<Rightarrow> bool" where
  "seg a p [] q = (a p = q)"
| "seg a p (x # xs) q = (a p = x \<and> seg a x xs q)"

text \<open>
  \<open>partitioned list us es\<close>: the used list is \<open>us\<close>, the empty list is \<open>es\<close>, and
  every index \<open>0..len - 1\<close> is in exactly one of them, once.
\<close>

definition partitioned :: "t_list \<Rightarrow> int list \<Rightarrow> int list \<Rightarrow> bool" where
  "partitioned list us es =
     (seg (array list) (first_used list) us LIST_END \<and>
      seg (array list) (first_empty list) es LIST_END \<and>
      distinct (us @ es) \<and> set (us @ es) = {0..<len list})"

text \<open>The same invariant, read off the two traversals of the list.\<close>

definition partition_inv :: "t_list \<Rightarrow> bool" where
  "partition_inv list =
     (case used_list list of
        None \<Rightarrow> False
      | Some us \<Rightarrow>
          (case empty_list list of
             None \<Rightarrow> False
           | Some es \<Rightarrow> distinct (us @ es) \<and> set (us @ es) = {0..<len list}))"

definition lengths_sum :: "t_list \<Rightarrow> bool" where
  "lengths_sum list =
     (case used_list list of
        None \<Rightarrow> False
      | Some us \<Rightarrow>
          (case empty_list list of
             None \<Rightarrow> False
           | Some es \<Rightarrow> length us + length es = nat (len list)))"

text \<open>
  \<open>confined list list'\<close>: the capacity is unchanged and no cell outside the \<open>len + 2\<close>
  cells allocated by \<^verbatim>\<open>list_new\<close> has been written.
\<close>

definition confined :: "t_list \<Rightarrow> t_list \<Rightarrow> bool" where
  "confined list list' =
     (len list' = len list \<and>
      (\<forall>i. i < 0 \<or> len list + 1 < i \<longrightarrow> array list' i = array list i))"

definition keeps_partition :: "t_list \<Rightarrow> t_list \<Rightarrow> bool" where
  "keeps_partition list list' =
     (partition_inv list' \<and> lengths_sum list' \<and> confined list list')"

text \<open>
  \<open>cursor list node\<close>: \<open>node\<close> is a position a traversal of the used list can be at:
  the head cell or the cell of a used index.
\<close>

definition cursor :: "t_list \<Rightarrow> int \<Rightarrow> bool" where
  "cursor list node =
     (case used_list list of None \<Rightarrow> False | Some us \<Rightarrow> node \<in> set (first_used list # us))"

section \<open>The granular engine (granular.c): data\<close>

subsection \<open>Casts, message atoms and constants\<close>

text \<open>The conversion of a double to an integer: truncation towards zero.\<close>

definition c_trunc :: "real \<Rightarrow> int" where
  "c_trunc r = (if 0 \<le> r then \<lfloor>r\<rfloor> else \<lceil>r\<rceil>)"

text \<open>
  The result of an operation on \<^verbatim>\<open>t_int32\<close> values, or of the narrowing of a wider
  integer to \<^verbatim>\<open>t_int32\<close>: the low 32 bits, read as two's complement.
\<close>

definition int32_of :: "int \<Rightarrow> int" where
  "int32_of v = (v + 2147483648) mod 4294967296 - 2147483648"

definition is_int32 :: "int \<Rightarrow> bool" where
  "is_int32 v = (- 2147483648 \<le> v \<and> v \<le> 2147483647)"

text \<open>
  \<^verbatim>\<open>(t_int32)\<close> of a double. For a value whose truncation is not a \<^verbatim>\<open>t_int32\<close> the C
  standard leaves the result open; the value taken here is the one the conversion
  instruction of x86-64 gives, \<open>- 2\<^sup>3\<^sup>1\<close>.
\<close>

definition c_trunc32 :: "real \<Rightarrow> int" where
  "c_trunc32 r = (if is_int32 (c_trunc r) then c_trunc r else - 2147483648)"

text \<open>Integer division of C: the quotient is truncated towards zero.\<close>

definition c_div :: "int \<Rightarrow> int \<Rightarrow> int" where
  "c_div a b = sgn a * sgn b * (\<bar>a\<bar> div \<bar>b\<bar>)"

text \<open>\<^verbatim>\<open>(t_int16)\<close> of a long: the low 16 bits, read as two's complement.\<close>

definition int16_of :: "int \<Rightarrow> int" where
  "int16_of v = (v + 32768) mod 65536 - 32768"

text \<open>
  A message argument (\<^verbatim>\<open>t_atom\<close> of the Max API) and its accessors: \<^verbatim>\<open>atom_getlong\<close>
  and \<^verbatim>\<open>atom_getfloat\<close> convert between the two numeric types and give \<open>0\<close> on a
  symbol; \<open>atom_is_long a\<close> is \<^verbatim>\<open>atom_gettype(a) == A_LONG\<close>. The argument vector
  \<^verbatim>\<open>argv\<close> is a store of atoms, \<^verbatim>\<open>argv + k\<close> its cell \<open>k\<close>; \<^verbatim>\<open>argc\<close> is passed
  beside it, as in the source.
\<close>

datatype t_atom = A_LONG int | A_FLOAT real | A_SYM string

fun atom_getlong :: "t_atom \<Rightarrow> int" where
  "atom_getlong (A_LONG n) = n"
| "atom_getlong (A_FLOAT f) = c_trunc f"
| "atom_getlong (A_SYM s) = 0"

fun atom_getfloat :: "t_atom \<Rightarrow> real" where
  "atom_getfloat (A_LONG n) = real_of_int n"
| "atom_getfloat (A_FLOAT f) = f"
| "atom_getfloat (A_SYM s) = 0"

fun atom_is_long :: "t_atom \<Rightarrow> bool" where
  "atom_is_long (A_LONG n) = True"
| "atom_is_long (A_FLOAT f) = False"
| "atom_is_long (A_SYM s) = False"

definition SEEDERS_MAX :: int where "SEEDERS_MAX = 10"
definition GRAINS_MAX :: int where "GRAINS_MAX = 100"
definition POLY_MAX :: int where "POLY_MAX = 10"
definition ENV_N_SMP :: int where "ENV_N_SMP = 1000"
definition LN2 :: real where "LN2 = 0.693147180559945309417"
definition ERR_ARG :: int where "ERR_ARG = -1"
definition BUFF_NO_LINK :: int where "BUFF_NO_LINK = -1"
definition BUFF_NO_FILE :: int where "BUFF_NO_FILE = -5"
definition BUFF_READY :: int where "BUFF_READY = 1"

text \<open>\<^verbatim>\<open>RAND_MAX\<close> of the C library (its value is the platform's; no result depends on it).\<close>

definition RAND_MAX :: int where "RAND_MAX = 32767"

subsection \<open>Seeder, grain and engine\<close>

text \<open>
  \<^verbatim>\<open>t_seeder\<close>. The handles of the host's buffer object (\<^verbatim>\<open>buff_sym\<close>, \<^verbatim>\<open>buff_ref\<close>,
  \<^verbatim>\<open>buff_obj\<close>, \<^verbatim>\<open>buff_file\<close>, \<^verbatim>\<open>buff_path\<close>, \<^verbatim>\<open>buff_is_chg\<close>) and the envelope
  selector (\<^verbatim>\<open>env_type\<close>, \<^verbatim>\<open>env_sym\<close>, \<^verbatim>\<open>env_alpha\<close>, \<^verbatim>\<open>env_beta\<close>, \<^verbatim>\<open>env_func\<close>)
  are left out; \<open>buff_samples\<close> is the sample array that
  \<^verbatim>\<open>buffer_locksamples(seeder->buff_obj)\<close> yields, \<open>env_values\<close> the envelope table
  and \<open>period_cntd\<close> the array of \<^verbatim>\<open>POLY_MAX\<close> countdowns.
\<close>

record t_seeder =
  index :: int
  is_on :: bool
  ampl :: real
  src_begin :: int
  src_len_ms :: real
  src_len :: int
  shift :: real
  shift_r :: real
  out_len :: int
  period :: real
  period_len :: int
  speed :: real
  ampl_rand :: real
  begin_rand :: real
  length_rand :: real
  shift_rand :: real
  period_rand :: real
  buff_samples :: "int \<Rightarrow> real"
  buff_n_chn :: int
  buff_n_frm :: int
  buff_msr :: real
  buff_state :: int
  env_values :: "int \<Rightarrow> real"
  poly_cnt :: int
  period_cntd :: "int \<Rightarrow> int"

text \<open>\<^verbatim>\<open>t_grain\<close>.\<close>

record t_grain =
  g_index :: int
  is_new :: bool
  g_ampl :: real
  g_src_begin :: int
  g_src_len :: int
  out_begin :: int
  g_out_len :: int
  out_cntd :: int
  src_I :: int
  src_R :: int
  env_I :: int
  env_R :: int

text \<open>
  \<^verbatim>\<open>t_granular\<close>, without the host's object header, outlets and envelope buffer.
  What the engine sends out is kept beside the state: \<open>console\<close> holds the lines
  written by \<^verbatim>\<open>MY_ERR\<close> and \<^verbatim>\<open>POST\<close>, \<open>outl_compl\<close> counts the bangs sent to the
  completion outlet, \<open>outl_bounds\<close> holds the lists sent to the bounds outlet.
  \<open>rand_seq\<close> is the sequence of values the coming calls of \<^verbatim>\<open>rand()\<close> return.
\<close>

record t_granular =
  msamplerate :: real
  env_n_frm :: int
  master :: real
  poly_max :: int
  seeders_max :: int
  seeders_cnt :: int
  seeders_arr :: "int \<Rightarrow> t_seeder"
  seeders_list :: t_list
  seeders_foc :: int
  grains_max :: int
  grains_cnt :: int
  grains_arr :: "int \<Rightarrow> t_grain"
  grains_list :: t_list
  console :: "string list"
  outl_compl :: nat
  outl_bounds :: "(real \<times> real) list"
  rand_seq :: "nat \<Rightarrow> int"

definition my_err :: "t_granular \<Rightarrow> string \<Rightarrow> t_granular" where
  "my_err x msg = x\<lparr>console := console x @ [msg]\<rparr>"

definition outlet_bang :: "t_granular \<Rightarrow> t_granular" where
  "outlet_bang x = x\<lparr>outl_compl := Suc (outl_compl x)\<rparr>"

definition c_rand :: "t_granular \<Rightarrow> int \<times> t_granular" where
  "c_rand x = (rand_seq x 0, x\<lparr>rand_seq := (\<lambda>k. rand_seq x (Suc k))\<rparr>)"

section \<open>The granular engine: spawning and scheduling\<close>

subsection \<open>granular\_add\_grain\_fs\<close>

text \<open>
  The pointer returned is \<^verbatim>\<open>NULL\<close> (\<open>None\<close>) when the pool is full, else the address
  of the grain's slot. Every field of the slot is assigned.
\<close>

definition granular_add_grain_fs ::
  "t_granular \<Rightarrow> t_seeder \<Rightarrow> int \<Rightarrow> int \<Rightarrow> int option \<times> t_granular" where
  "granular_add_grain_fs x seeder src_offset out_offset =
     (if grains_cnt x = grains_max x
      then (None, my_err x ''Impossible to add grain:  Maximum number already reached.'')
      else
        let (slot, glist) = list_insert_first (grains_list x);
            b0 = int32_of (src_begin seeder + src_offset);
            b1 = (if b0 < 0 then 0 else b0);
            b2 = (if int32_of (b1 + src_len seeder) > buff_n_frm seeder
                  then int32_of (buff_n_frm seeder - src_len seeder) else b1);
            grain = \<lparr>g_index = index seeder, is_new = True, g_ampl = ampl seeder,
                     g_src_begin = b2, g_src_len = src_len seeder,
                     out_begin = out_offset, g_out_len = out_len seeder,
                     out_cntd = out_len seeder,
                     src_I = 0, src_R = 0, env_I = 0, env_R = 0\<rparr>
        in (Some slot,
            x\<lparr>grains_cnt := grains_cnt x + 1, grains_list := glist,
              grains_arr := (grains_arr x)(slot := grain)\<rparr>))"

subsection \<open>The seeder loop of granular\_perform64\<close>

text \<open>
  \<^verbatim>\<open>(t_int32)(seeder->period_len * (1 + (seeder->period_rand * (2.0 * rand() / RAND_MAX - 1))))\<close>,
  for the value \<open>r\<close> that \<^verbatim>\<open>rand()\<close> returned.
\<close>

definition next_period :: "t_seeder \<Rightarrow> int \<Rightarrow> int" where
  "next_period seeder r =
     c_trunc32 (real_of_int (period_len seeder)
                * (1 + period_rand seeder * (2.0 * real_of_int r / real_of_int RAND_MAX - 1)))"

text \<open>
  What one turn of the main stream's loop does to the seeder, after the spawn: for the
  value \<open>r\<close> of \<^verbatim>\<open>rand()\<close> and the engine's sample rate \<open>msr\<close>, the countdown of
  stream 0 is advanced by the period and the source begin is moved and wrapped.
\<close>

definition seeder_advance :: "real \<Rightarrow> int \<Rightarrow> t_seeder \<Rightarrow> t_seeder" where
  "seeder_advance msr r seeder =
     (let period' = next_period seeder r;
          s1 = seeder\<lparr>period_cntd :=
                 (period_cntd seeder)(0 := int32_of (period_cntd seeder 0 + period'))\<rparr>;
          s2 = s1\<lparr>src_begin := int32_of (src_begin s1
                    + c_trunc32 (real_of_int period' * speed s1 * buff_msr s1 / msr))\<rparr>;
          s3 = s2\<lparr>src_begin := (if src_begin s2 < 0 then int32_of (buff_n_frm s2 - src_len s2)
                                 else src_begin s2)\<rparr>;
          s4 = s3\<lparr>src_begin := (if int32_of (src_begin s3 + src_len s3) > buff_n_frm s3 then 0
                                 else src_begin s3)\<rparr>
      in s4)"

text \<open>
  The body of \<^verbatim>\<open>while (seeder->period_cntd[0] < sampleframes) { ... }\<close> for the seeder
  in cell \<open>i\<close> of \<^verbatim>\<open>seeders_arr\<close>: the spawn at the output offset
  \<^verbatim>\<open>seeder->period_cntd[0]\<close> (the result of \<^verbatim>\<open>granular_add_grain_fs\<close> is not
  looked at), then the advance of the seeder.
\<close>

definition main_stream_step :: "int \<Rightarrow> t_granular \<Rightarrow> t_granular" where
  "main_stream_step i x =
     (let seeder = seeders_arr x i;
          x1 = snd (granular_add_grain_fs x seeder 0 (period_cntd seeder 0));
          (r, x2) = c_rand x1
      in x2\<lparr>seeders_arr := (seeders_arr x2)(i := seeder_advance (msamplerate x2) r seeder)\<rparr>)"

partial_function (option) main_stream :: "int \<Rightarrow> int \<Rightarrow> t_granular \<Rightarrow> t_granular option" where
  "main_stream sampleframes i x =
     (if period_cntd (seeders_arr x i) 0 < sampleframes
      then main_stream sampleframes i (main_stream_step i x)
      else Some x)"

text \<open>
  The body of the loop of the poly stream \<open>k\<close>,
  \<^verbatim>\<open>while (seeder->period_cntd[i] < sampleframes) { ... }\<close>: the spawn at the source offset
  derived from the distance to stream 0, then the advance of the stream's countdown.
\<close>

definition poly_stream_step :: "int \<Rightarrow> int \<Rightarrow> t_granular \<Rightarrow> t_granular" where
  "poly_stream_step i k x =
     (let seeder = seeders_arr x i;
          x1 = snd (granular_add_grain_fs x seeder
                     (c_trunc32 (real_of_int (int32_of (period_cntd seeder k - period_cntd seeder 0))
                                 * speed seeder * buff_msr seeder / msamplerate x))
                     (period_cntd seeder k));
          (r, x2) = c_rand x1;
          s1 = seeder\<lparr>period_cntd :=
                 (period_cntd seeder)(k := int32_of (period_cntd seeder k + next_period seeder r))\<rparr>
      in x2\<lparr>seeders_arr := (seeders_arr x2)(i := s1)\<rparr>)"

partial_function (option) poly_stream ::
  "int \<Rightarrow> int \<Rightarrow> int \<Rightarrow> t_granular \<Rightarrow> t_granular option" where
  "poly_stream sampleframes i k x =
     (if period_cntd (seeders_arr x i) k < sampleframes
      then poly_stream sampleframes i k (poly_stream_step i k x)
      else Some x)"

text \<open>\<^verbatim>\<open>seeder->period_cntd[k] -= sampleframes;\<close>\<close>

definition cntd_next_cycle :: "int \<Rightarrow> int \<Rightarrow> int \<Rightarrow> t_granular \<Rightarrow> t_granular" where
  "cntd_next_cycle sampleframes i k x =
     (let seeder = seeders_arr x i
      in x\<lparr>seeders_arr := (seeders_arr x)
             (i := seeder\<lparr>period_cntd :=
                     (period_cntd seeder)(k := int32_of (period_cntd seeder k - sampleframes))\<rparr>)\<rparr>)"

text \<open>\<^verbatim>\<open>for (t_int16 i = 1; i < seeder->poly_cnt; i++) { ... }\<close>, from stream \<open>k\<close> on.\<close>

partial_function (option) poly_streams ::
  "int \<Rightarrow> int \<Rightarrow> int \<Rightarrow> t_granular \<Rightarrow> t_granular option" where
  "poly_streams sampleframes i k x =
     (if k < poly_cnt (seeders_arr x i) then
        Option.bind (poly_stream sampleframes i k x)
          (\<lambda>x1. poly_streams sampleframes i (k + 1) (cntd_next_cycle sampleframes i k x1))
      else Some x)"

text \<open>The body of the seeder loop, for the seeder in cell \<open>i\<close>.\<close>

definition seeder_cycle :: "int \<Rightarrow> int \<Rightarrow> t_granular \<Rightarrow> t_granular option" where
  "seeder_cycle sampleframes i x =
     (if is_on (seeders_arr x i) then
        Option.bind (main_stream sampleframes i x) (\<lambda>x1.
        Option.bind (poly_streams sampleframes i 1 x1) (\<lambda>x2.
        Some (cntd_next_cycle sampleframes i 0 x2)))
      else Some x)"

text \<open>
  \<^verbatim>\<open>while (*node != LIST_END) { seeder = x->seeders_arr + *node; ...;
  node = x->seeders_list->array + *node; }\<close>
\<close>

partial_function (option) seeder_loop :: "int \<Rightarrow> int \<Rightarrow> t_granular \<Rightarrow> t_granular option" where
  "seeder_loop sampleframes node x =
     (if array (seeders_list x) node \<noteq> LIST_END then
        Option.bind (seeder_cycle sampleframes (array (seeders_list x) node) x)
          (\<lambda>x1. seeder_loop sampleframes (array (seeders_list x1) node) x1)
      else Some x)"

section \<open>The granular engine: rendering\<close>

text \<open>\<^verbatim>\<open>n = sampleframes; out = outs[0]; while (n--) { *out++ = 0; }\<close>\<close>

partial_function (option) perform_zero ::
  "int \<Rightarrow> (int \<Rightarrow> real) \<Rightarrow> int \<Rightarrow> (int \<Rightarrow> real) option" where
  "perform_zero n out p =
     (if n \<noteq> 0 then perform_zero (n - 1) (out(p := 0)) (p + 1) else Some out)"

text \<open>
  The cursor step \<^verbatim>\<open>while (R >= out_len) { R -= out_len; I++; }\<close>, used for the source
  cursor and for the envelope cursor; \<open>out_len'\<close> is the local
  \<^verbatim>\<open>out_len = grain->out_len - 1\<close>.
\<close>

partial_function (option) cursor_wrap :: "int \<Rightarrow> int \<Rightarrow> int \<Rightarrow> (int \<times> int) option" where
  "cursor_wrap out_len' I R =
     (if R \<ge> out_len' then cursor_wrap out_len' (I + 1) (R - out_len') else Some (I, R))"

text \<open>
  The second half of the body of the sample loop:
  \<^verbatim>\<open>grain->src_R += src_len; while ...; grain->env_R += env_len; while ...; n--; grain->out_cntd--;\<close>
\<close>

definition grain_advance :: "int \<Rightarrow> int \<Rightarrow> int \<Rightarrow> t_grain \<Rightarrow> t_grain option" where
  "grain_advance src_len' env_len out_len' grain =
     Option.bind (cursor_wrap out_len' (src_I grain) (src_R grain + src_len')) (\<lambda>(sI, sR).
     Option.bind (cursor_wrap out_len' (env_I grain) (env_R grain + env_len)) (\<lambda>(eI, eR).
     Some (grain\<lparr>src_I := sI, src_R := sR, env_I := eI, env_R := eR,
                 out_cntd := out_cntd grain - 1\<rparr>)))"

text \<open>
  The first half: the value added to \<^verbatim>\<open>*out\<close>. The store \<open>env_values\<close> is read at
  \<open>env_I\<close> and \<open>env_I + 1\<close>, the source buffer at \<open>ind\<close> and \<open>ind + buff_n_chn\<close>.
\<close>

definition grain_sample :: "real \<Rightarrow> real \<Rightarrow> t_seeder \<Rightarrow> t_grain \<Rightarrow> real" where
  "grain_sample mult inv_out_len seeder grain =
     (let ind = (g_src_begin grain + src_I grain) * buff_n_chn seeder;
          env = env_values seeder;
          buff_src = buff_samples seeder
      in mult
         * (env (env_I grain) + real_of_int (env_R grain) * inv_out_len
              * (env (env_I grain + 1) - env (env_I grain)))
         * (buff_src ind + real_of_int (src_R grain) * inv_out_len
              * (buff_src (ind + buff_n_chn seeder) - buff_src ind)))"

text \<open>
  The sample loop \<^verbatim>\<open>while (n && grain->out_cntd) { ... }\<close>; \<open>p\<close> is the offset of
  \<^verbatim>\<open>out\<close> in the output vector. \<open>reads\<close> is not a variable of the source: it records,
  in order, the offsets at which the loop reads \<^verbatim>\<open>seeder->env_values\<close>.
\<close>

partial_function (option) grain_write ::
  "real \<Rightarrow> int \<Rightarrow> int \<Rightarrow> int \<Rightarrow> real \<Rightarrow> t_seeder \<Rightarrow> int \<Rightarrow> int \<Rightarrow> (int \<Rightarrow> real) \<Rightarrow> int list
     \<Rightarrow> t_grain \<Rightarrow> (t_grain \<times> (int \<Rightarrow> real) \<times> int list) option" where
  "grain_write mult src_len' out_len' env_len inv_out_len seeder n p out reads grain =
     (if n \<noteq> 0 \<and> out_cntd grain \<noteq> 0 then
        Option.bind (grain_advance src_len' env_len out_len' grain) (\<lambda>grain'.
          grain_write mult src_len' out_len' env_len inv_out_len seeder (n - 1) (p + 1)
            (out(p := out p + grain_sample mult inv_out_len seeder grain))
            (reads @ [env_I grain, env_I grain + 1]) grain')
      else Some (grain, out, reads))"

text \<open>
  One grain in one block: the locals, the sample loop, and
  \<^verbatim>\<open>grain->out_begin = 0\<close>. (In HOL \<open>1 / 0 = 0\<close>, in C \<^verbatim>\<open>1 / (t_double)0\<close> is
  infinite; no result below reads \<open>inv_out_len\<close> for \<open>out_len' = 0\<close>.)
\<close>

definition grain_render ::
  "t_granular \<Rightarrow> int \<Rightarrow> (int \<Rightarrow> real) \<Rightarrow> t_grain
     \<Rightarrow> (t_grain \<times> (int \<Rightarrow> real) \<times> int list) option" where
  "grain_render x sampleframes out grain =
     (let seeder = seeders_arr x (g_index grain);
          p = out_begin grain;
          n = sampleframes - out_begin grain;
          mult = master x * g_ampl grain;
          src_len' = g_src_len grain - 1;
          out_len' = g_out_len grain - 1;
          env_len = env_n_frm x - 1;
          inv_out_len = 1 / real_of_int out_len'
      in Option.bind
           (grain_write mult src_len' out_len' env_len inv_out_len seeder n p out [] grain)
           (\<lambda>(grain', out', reads). Some (grain'\<lparr>out_begin := 0\<rparr>, out', reads)))"

text \<open>
  The grain loop \<^verbatim>\<open>while (*node != LIST_END) { ... }\<close>: an unfinished grain moves the
  cursor on, a finished one is removed at the cursor, which stays.
\<close>

partial_function (option) grain_loop ::
  "int \<Rightarrow> int \<Rightarrow> t_granular \<Rightarrow> (int \<Rightarrow> real) \<Rightarrow> (t_granular \<times> (int \<Rightarrow> real)) option" where
  "grain_loop sampleframes node x out =
     (if array (grains_list x) node \<noteq> LIST_END then
        Option.bind
          (grain_render x sampleframes out (grains_arr x (array (grains_list x) node)))
          (\<lambda>(grain', out', reads).
             let x1 = x\<lparr>grains_arr := (grains_arr x)(array (grains_list x) node := grain')\<rparr>
             in if out_cntd grain' \<noteq> 0
                then grain_loop sampleframes (array (grains_list x1) node) x1 out'
                else grain_loop sampleframes node
                       (x1\<lparr>grains_cnt := grains_cnt x1 - 1,
                           grains_list := snd (list_remove_node (grains_list x1) node)\<rparr>)
                       out')
      else Some (x, out))"

text \<open>
  The envelope table has \<open>env_n_frm\<close> cells
  (\<^verbatim>\<open>sysmem_newptr((long)(x->env_n_frm * sizeof(float)))\<close>): the read of cell \<open>i\<close>, with
  the bounds checked.
\<close>

definition env_lookup :: "t_granular \<Rightarrow> t_seeder \<Rightarrow> int \<Rightarrow> real option" where
  "env_lookup x seeder i =
     (if 0 \<le> i \<and> i < env_n_frm x then Some (env_values seeder i) else None)"

declare main_stream.simps [code] poly_stream.simps [code] poly_streams.simps [code]
  seeder_loop.simps [code] perform_zero.simps [code] cursor_wrap.simps [code]
  grain_write.simps [code] grain_loop.simps [code]

section \<open>The granular engine: the control path\<close>

subsection \<open>granular\_check\_args\<close>

text \<open>
  Returns the seeder index, or \<^verbatim>\<open>ERR_ARG\<close> after an error line. The index is read
  with \<^verbatim>\<open>(t_int16)atom_getlong(argv)\<close>.
\<close>

definition granular_check_args ::
  "t_granular \<Rightarrow> string \<Rightarrow> int \<Rightarrow> (int \<Rightarrow> t_atom) \<Rightarrow> int \<Rightarrow> int \<times> t_granular" where
  "granular_check_args x method argc argv argc_exp =
     (if argc \<noteq> argc_exp then
        (if argc_exp = 1 then
           (ERR_ARG, my_err x (method @ '':  Invalid arguments. The method expects one integer as the seeder index.''))
         else if argc_exp = 2 then
           (ERR_ARG, my_err x (method @ '':  Invalid arguments. The method expects two arguments.''))
         else
           (ERR_ARG, my_err x (method @ '':  Invalid arguments. The method expects parameters.'')))
      else if \<not> atom_is_long (argv 0) then
        (ERR_ARG, my_err x (method @ '':  Arg 0 (index of the seeder):  Has to be an integer.''))
      else
        let index' = int16_of (atom_getlong (argv 0)) in
        if index' < 0 then
          (ERR_ARG, my_err x (method @ '':  Arg 0 (index of the seeder):  Has to be 0 or more.''))
        else if index' \<ge> seeders_max x then
          (ERR_ARG, my_err x (method @ '':  Arg 0 (index of the seeder):  Has to be less.''))
        else (index', x))"

subsection \<open>granular\_set\_seeder\<close>

text \<open>
  \<^verbatim>\<open>for (int i = 0; i < seeder->poly_cnt; i++) {
  seeder->period_cntd[i] = (t_int32)(i * seeder->period_len / seeder->poly_cnt); }\<close>
\<close>

function poly_fill :: "int \<Rightarrow> int \<Rightarrow> int \<Rightarrow> (int \<Rightarrow> int) \<Rightarrow> (int \<Rightarrow> int)" where
  "poly_fill cnt plen i c =
     (if i < cnt then poly_fill cnt plen (i + 1) (c(i := c_div (int32_of (i * plen)) cnt)) else c)"
  by pat_completeness auto
termination
  by (relation "measure (\<lambda>(cnt, plen, i, c). nat (cnt - i))") auto

declare poly_fill.simps [simp del]

definition set_seeder_fields :: "t_granular \<Rightarrow> (int \<Rightarrow> t_atom) \<Rightarrow> t_seeder \<Rightarrow> t_seeder" where
  "set_seeder_fields x argv seeder =
     (let s1 = seeder\<lparr>ampl := atom_getfloat (argv 1)\<rparr>;
          s2 = s1\<lparr>src_begin := c_trunc32 (atom_getfloat (argv 2) * real_of_int (buff_n_frm s1))\<rparr>;
          s3 = s2\<lparr>src_len_ms := atom_getfloat (argv 3)\<rparr>;
          s4 = s3\<lparr>src_len := c_trunc32 (src_len_ms s3 * buff_msr s3)\<rparr>;
          s5 = s4\<lparr>src_begin := (if src_begin s4 < 0 then 0 else src_begin s4)\<rparr>;
          s6 = s5\<lparr>src_begin := (if int32_of (src_begin s5 + src_len s5) > buff_n_frm s5
                                 then int32_of (buff_n_frm s5 - src_len s5)
                                 else src_begin s5)\<rparr>;
          s7 = s6\<lparr>shift := atom_getfloat (argv 4)\<rparr>;
          s8 = s7\<lparr>shift_r := exp (- LN2 * shift s7)\<rparr>;
          s9 = s8\<lparr>out_len := c_trunc32 (src_len_ms s8 * shift_r s8 * msamplerate x)\<rparr>;
          s10 = s9\<lparr>period := atom_getfloat (argv 5)\<rparr>;
          s11 = s10\<lparr>period_len := c_trunc32 (period s10 * real_of_int (out_len s10))\<rparr>;
          s12 = s11\<lparr>speed := atom_getfloat (argv 6)\<rparr>;
          s13 = s12\<lparr>period_rand := atom_getfloat (argv 7)\<rparr>
      in s13\<lparr>poly_cnt := int16_of (atom_getlong (argv 8))\<rparr>)"

definition granular_set_seeder :: "t_granular \<Rightarrow> int \<Rightarrow> (int \<Rightarrow> t_atom) \<Rightarrow> t_granular" where
  "granular_set_seeder x argc argv =
     (if argc \<noteq> 9 then
        foldl my_err x
          [''add_seeder:  Wrong number of arguments. The method expects:'',
           ''  Arg 0:  Int - Seeder index'',
           ''  Arg 1:  Float - Amplitude'',
           ''  Arg 2:  Float - Beginning'',
           ''  Arg 3:  Float - Length'',
           ''  Arg 4:  Float - Shift'',
           ''  Arg 5:  Float - Period'',
           ''  Arg 6:  Float - Speed'',
           ''  Arg 7:  Float - Random'',
           ''  Arg 8:  Int - Number of simultaneous grain streams'']
      else
        let (index', x1) = granular_check_args x ''set_seeder'' argc argv 9 in
        if index' = ERR_ARG then x1
        else
          let s14 = set_seeder_fields x1 argv (seeders_arr x1 index');
              bad = (poly_cnt s14 < 1 \<or> poly_cnt s14 > poly_max x1);
              x2 = (if bad
                    then my_err x1 ''add_seeder:  Arg 8 (number of grain streams):  Has to be between 1 and the maximum. Set to 1.''
                    else x1);
              s15 = s14\<lparr>poly_cnt := (if bad then 1 else poly_cnt s14)\<rparr>;
              s16 = s15\<lparr>period_cntd :=
                      poly_fill (poly_cnt s15) (period_len s15) 0 (period_cntd s15)\<rparr>
          in x2\<lparr>seeders_arr := (seeders_arr x2)(index' := s16)\<rparr>)"

subsection \<open>Switching a seeder on and off, and the focus\<close>

text \<open>
  The value \<^verbatim>\<open>list_insert_index\<close> returns is compared with \<^verbatim>\<open>LIST_END\<close>, as in the
  source.
\<close>

definition granular_seeder_on ::
  "t_granular \<Rightarrow> int \<Rightarrow> (int \<Rightarrow> t_atom) \<Rightarrow> t_granular option" where
  "granular_seeder_on x argc argv =
     (let (index', x1) = granular_check_args x ''seeder_on'' argc argv 1 in
      if index' = ERR_ARG then Some (outlet_bang x1)
      else if is_on (seeders_arr x1 index') then Some (outlet_bang x1)
      else if buff_state (seeders_arr x1 index') = BUFF_NO_FILE then
        Some (outlet_bang (my_err x1 ''seeder_on:  Source buffer has no file loaded in.''))
      else if buff_state (seeders_arr x1 index') \<noteq> BUFF_READY then
        Some (outlet_bang (my_err x1 ''seeder_on:  Source buffer is not ready to be used.''))
      else
        case list_insert_index (seeders_list x1) index' of
          None \<Rightarrow> None
        | Some (r, slist) \<Rightarrow>
            let x2 = x1\<lparr>seeders_list := slist\<rparr> in
            if r = LIST_END then
              Some (outlet_bang (my_err x2 ''seeder_off:  Error calling list_insert_index.''))
            else
              Some (outlet_bang
                (x2\<lparr>seeders_cnt := seeders_cnt x2 + 1,
                    seeders_arr := (seeders_arr x2)
                      (index' := (seeders_arr x2 index')\<lparr>is_on := True\<rparr>)\<rparr>)))"

definition granular_seeder_off ::
  "t_granular \<Rightarrow> int \<Rightarrow> (int \<Rightarrow> t_atom) \<Rightarrow> t_granular option" where
  "granular_seeder_off x argc argv =
     (let (index', x1) = granular_check_args x ''seeder_off'' argc argv 1 in
      if index' = ERR_ARG then Some (outlet_bang x1)
      else if \<not> is_on (seeders_arr x1 index') then Some (outlet_bang x1)
      else
        case list_remove_index (seeders_list x1) index' of
          None \<Rightarrow> None
        | Some (r, slist) \<Rightarrow>
            let x2 = x1\<lparr>seeders_list := slist\<rparr> in
            if r = LIST_END then
              Some (outlet_bang (my_err x2 ''seeder_off:  Error calling list_remove_index.''))
            else
              Some (outlet_bang
                (x2\<lparr>seeders_cnt := seeders_cnt x2 - 1,
                    seeders_arr := (seeders_arr x2)
                      (index' := (seeders_arr x2 index')\<lparr>is_on := False\<rparr>)\<rparr>)))"

definition granular_focus :: "t_granular \<Rightarrow> int \<Rightarrow> (int \<Rightarrow> t_atom) \<Rightarrow> t_granular" where
  "granular_focus x argc argv =
     (let (index', x1) = granular_check_args x ''focus'' argc argv 1 in
      if index' = ERR_ARG then x1
      else outlet_bang (x1\<lparr>seeders_foc := index'\<rparr>))"

subsection \<open>The setters of one field\<close>

text \<open>
  Each starts with \<^verbatim>\<open>t_int16 index = (t_int16)atom_getlong(argv);\<close> and writes
  \<^verbatim>\<open>x->seeders_arr[index]\<close>; \<^verbatim>\<open>argc\<close> is not read and the index is not checked.
\<close>

definition granular_ampl :: "t_granular \<Rightarrow> int \<Rightarrow> (int \<Rightarrow> t_atom) \<Rightarrow> t_granular" where
  "granular_ampl x argc argv =
     (let index' = int16_of (atom_getlong (argv 0));
          seeder = seeders_arr x index'
      in x\<lparr>seeders_arr := (seeders_arr x)
             (index' := seeder\<lparr>ampl := atom_getfloat (argv 1)\<rparr>)\<rparr>)"

definition granular_begin :: "t_granular \<Rightarrow> int \<Rightarrow> (int \<Rightarrow> t_atom) \<Rightarrow> t_granular" where
  "granular_begin x argc argv =
     (let index' = int16_of (atom_getlong (argv 0));
          seeder = seeders_arr x index';
          s1 = seeder\<lparr>src_begin :=
                 c_trunc32 (atom_getfloat (argv 1) * real_of_int (buff_n_frm seeder))\<rparr>;
          s2 = s1\<lparr>src_begin := (if src_begin s1 < 0 then 0 else src_begin s1)\<rparr>;
          s3 = s2\<lparr>src_begin := (if int32_of (src_begin s2 + src_len s2) > buff_n_frm s2
                                 then int32_of (buff_n_frm s2 - src_len s2)
                                 else src_begin s2)\<rparr>
      in x\<lparr>seeders_arr := (seeders_arr x)(index' := s3)\<rparr>)"

definition granular_length :: "t_granular \<Rightarrow> int \<Rightarrow> (int \<Rightarrow> t_atom) \<Rightarrow> t_granular" where
  "granular_length x argc argv =
     (let index' = int16_of (atom_getlong (argv 0));
          seeder = seeders_arr x index';
          s1 = seeder\<lparr>src_len_ms := atom_getfloat (argv 1)\<rparr>;
          s2 = s1\<lparr>src_len := c_trunc32 (src_len_ms s1 * buff_msr s1)\<rparr>;
          s3 = s2\<lparr>out_len := c_trunc32 (src_len_ms s2 * shift_r s2 * msamplerate x)\<rparr>;
          s4 = s3\<lparr>period_len := c_trunc32 (real_of_int (out_len s3) * period s3)\<rparr>
      in x\<lparr>seeders_arr := (seeders_arr x)(index' := s4)\<rparr>)"

definition granular_shift :: "t_granular \<Rightarrow> int \<Rightarrow> (int \<Rightarrow> t_atom) \<Rightarrow> t_granular" where
  "granular_shift x argc argv =
     (let index' = int16_of (atom_getlong (argv 0));
          seeder = seeders_arr x index';
          s1 = seeder\<lparr>shift := atom_getfloat (argv 1)\<rparr>;
          s2 = s1\<lparr>shift_r := exp (- LN2 * shift s1)\<rparr>;
          s3 = s2\<lparr>out_len := c_trunc32 (src_len_ms s2 * shift_r s2 * msamplerate x)\<rparr>;
          s4 = s3\<lparr>period_len := c_trunc32 (real_of_int (out_len s3) * period s3)\<rparr>
      in x\<lparr>seeders_arr := (seeders_arr x)(index' := s4)\<rparr>)"

definition granular_period :: "t_granular \<Rightarrow> int \<Rightarrow> (int \<Rightarrow> t_atom) \<Rightarrow> t_granular" where
  "granular_period x argc argv =
     (let index' = int16_of (atom_getlong (argv 0));
          seeder = seeders_arr x index';
          s1 = seeder\<lparr>period := atom_getfloat (argv 1)\<rparr>;
          s2 = s1\<lparr>period_len := c_trunc32 (real_of_int (out_len s1) * period s1)\<rparr>
      in x\<lparr>seeders_arr := (seeders_arr x)(index' := s2)\<rparr>)"

definition granular_speed :: "t_granular \<Rightarrow> int \<Rightarrow> (int \<Rightarrow> t_atom) \<Rightarrow> t_granular" where
  "granular_speed x argc argv =
     (let index' = int16_of (atom_getlong (argv 0));
          seeder = seeders_arr x index'
      in x\<lparr>seeders_arr := (seeders_arr x)
             (index' := seeder\<lparr>speed := atom_getfloat (argv 1)\<rparr>)\<rparr>)"

text \<open>\<^verbatim>\<open>t_int16 poly_cnt = (t_int16)atom_getfloat(argv + 1);\<close>\<close>

definition granular_poly :: "t_granular \<Rightarrow> int \<Rightarrow> (int \<Rightarrow> t_atom) \<Rightarrow> t_granular" where
  "granular_poly x argc argv =
     (let index' = int16_of (atom_getlong (argv 0));
          poly_cnt' = int16_of (c_trunc (atom_getfloat (argv 1)))
      in if poly_cnt' < 1 \<or> poly_cnt' > poly_max x then
           my_err x ''poly:  Arg 2 (number of grain streams):  Has to be between 1 and the maximum.''
         else
           let seeder = seeders_arr x index';
               s1 = seeder\<lparr>poly_cnt := poly_cnt'\<rparr>;
               s2 = s1\<lparr>period_cntd :=
                      poly_fill (poly_cnt s1) (period_len s1) 0 (period_cntd s1)\<rparr>
           in x\<lparr>seeders_arr := (seeders_arr x)(index' := s2)\<rparr>)"

definition granular_period_rand :: "t_granular \<Rightarrow> int \<Rightarrow> (int \<Rightarrow> t_atom) \<Rightarrow> t_granular" where
  "granular_period_rand x argc argv =
     (let index' = int16_of (atom_getlong (argv 0));
          seeder = seeders_arr x index'
      in x\<lparr>seeders_arr := (seeders_arr x)
             (index' := seeder\<lparr>period_rand := atom_getfloat (argv 1)\<rparr>)\<rparr>)"

subsection \<open>The end of granular\_buffer\<close>

text \<open>
  \<^verbatim>\<open>granular_buffer\<close> for a seeder index in range, from the point where the host has
  found the buffer object ("Test if a file is loaded"): \<open>samples\<close>, \<open>n_frm\<close>,
  \<open>n_chn\<close> and \<open>msr\<close> are the host's answers for that object
  (\<^verbatim>\<open>buffer_locksamples\<close>, \<^verbatim>\<open>buffer_getframecount\<close>, \<^verbatim>\<open>buffer_getchannelcount\<close>,
  \<^verbatim>\<open>buffer_getmillisamplerate\<close>). The lookup of the buffer by its name is the host's
  and is not modelled.
\<close>

definition granular_buffer_found ::
  "t_granular \<Rightarrow> int \<Rightarrow> (int \<Rightarrow> real) \<Rightarrow> int \<Rightarrow> int \<Rightarrow> real \<Rightarrow> t_granular" where
  "granular_buffer_found x index' samples n_frm n_chn msr =
     (let seeder = seeders_arr x index';
          s1 = seeder\<lparr>buff_samples := samples, buff_n_frm := int32_of n_frm,
                     buff_n_chn := int16_of n_chn, buff_msr := msr\<rparr>;
          s2 = s1\<lparr>src_len := c_trunc32 (src_len_ms s1 * buff_msr s1)\<rparr>;
          no_file = (buff_n_frm s2 = 0 \<or> buff_n_chn s2 = 0 \<or> buff_msr s2 = 0);
          s3 = s2\<lparr>buff_state := (if no_file then BUFF_NO_FILE else BUFF_READY)\<rparr>
      in x\<lparr>seeders_arr := (seeders_arr x)(index' := s3),
           console := console x @
             [if no_file
              then ''buffer:  Seeder successfully linked to source buffer. No file loaded yet.''
              else ''buffer:  Seeder successfully linked to source buffer.'']\<rparr>)"

subsection \<open>granular\_new\<close>

text \<open>
  What the host and the C runtime supply to \<^verbatim>\<open>granular_new\<close>: the sample rate
  (\<^verbatim>\<open>sys_getsr()\<close>), the Hann envelope of \<^verbatim>\<open>envelopes.h\<close> as a function of the phase
  (\<^verbatim>\<open>env_hann(f, 0, 0)\<close>, a file that is not part of the sources), the values
  \<^verbatim>\<open>rand()\<close> will return, and the content of the memory handed out by
  \<^verbatim>\<open>sysmem_newptr\<close> for the arrays of integers, of floats, of grains and of seeders.
\<close>

record t_host =
  sys_getsr :: real
  env_hann :: "real \<Rightarrow> real"
  rand_values :: "nat \<Rightarrow> int"
  int_mem :: "int \<Rightarrow> int"
  float_mem :: "int \<Rightarrow> real"
  grain_mem :: "int \<Rightarrow> t_grain"
  seeder_mem :: "int \<Rightarrow> t_seeder"

text \<open>The body of \<^verbatim>\<open>for (t_int16 index = 0; index < x->seeders_max; index++)\<close>.\<close>

definition seeder_init :: "t_host \<Rightarrow> real \<Rightarrow> int \<Rightarrow> int \<Rightarrow> t_seeder" where
  "seeder_init host msr n_frm index' =
     (let src_len0 = c_trunc32 (100 * msr);
          out_len0 = c_trunc32 (real_of_int src_len0 * 1);
          period_len0 = c_trunc32 (real_of_int out_len0 * 0.37)
      in (seeder_mem host index')
         \<lparr>index := index', is_on := False, ampl := 1, src_begin := 0, src_len_ms := 100,
          src_len := src_len0, shift := 0, shift_r := 1, out_len := out_len0,
          period := 0.37, period_len := period_len0, speed := 1,
          ampl_rand := 0.25, begin_rand := 0.25, length_rand := 0.25,
          shift_rand := 0.25, period_rand := 0.25,
          buff_n_chn := 0, buff_n_frm := 0, buff_msr := msr, buff_state := BUFF_NO_LINK,
          env_values := (\<lambda>i. if 0 \<le> i \<and> i < n_frm
                               then env_hann host (real_of_int i / real_of_int (n_frm - 1))
                               else float_mem host i),
          poly_cnt := 1,
          period_cntd := (int_mem host)(0 := 0)\<rparr>)"

definition granular_new :: "t_host \<Rightarrow> int \<Rightarrow> (int \<Rightarrow> t_atom) \<Rightarrow> t_granular" where
  "granular_new host argc argv =
     (let (smax, gmax, lines) =
            (if argc = 0 then (SEEDERS_MAX, GRAINS_MAX, [])
             else if argc = 1 \<and> atom_is_long (argv 0) then
               (SEEDERS_MAX, int16_of (atom_getlong (argv 0)), [])
             else if argc = 2 \<and> atom_is_long (argv 0) \<and> atom_is_long (argv 0) then
               (int16_of (atom_getlong (argv 0)), int16_of (atom_getlong (argv 1)), [])
             else (SEEDERS_MAX, GRAINS_MAX, [''granular_new:  Invalid arguments'']));
          msr = sys_getsr host * 0.001
      in \<lparr>msamplerate = msr,
          env_n_frm = ENV_N_SMP,
          master = 1,
          poly_max = POLY_MAX,
          seeders_max = smax,
          seeders_cnt = 0,
          seeders_arr = (\<lambda>i. if 0 \<le> i \<and> i < smax then seeder_init host msr ENV_N_SMP i
                              else seeder_mem host i),
          seeders_list = list_new (int_mem host) smax,
          seeders_foc = 0,
          grains_max = gmax,
          grains_cnt = 0,
          grains_arr = grain_mem host,
          grains_list = list_new (int_mem host) gmax,
          console = lines @ [''granular_new:  Granular object created.''],
          outl_compl = 0,
          outl_bounds = [],
          rand_seq = rand_values host\<rparr>)"

section \<open>Output finisher (granular\_perform64, "Eliminate values that are out of bounds")\<close>

text \<open>
  The body of the last loop of \<^verbatim>\<open>granular_perform64\<close>, on one sample:
  \<^verbatim>\<open>if (*out > 1) { *out = 2 - *out; }  if (*out < -1) { *out = -2 - *out; }\<close>.
  The second test reads the value the first one has just written.
\<close>

definition fold_sample :: "real \<Rightarrow> real" where
  "fold_sample v =
     (let v1 = (if v > 1 then 2 - v else v);
          v2 = (if v1 < -1 then -2 - v1 else v1)
      in v2)"

text \<open>
  \<^verbatim>\<open>n = sampleframes; out = outs[0]; while (n--) { ...; out++; }\<close>: \<open>p\<close> is the
  offset of \<^verbatim>\<open>out\<close> in the output vector.
\<close>

partial_function (option) perform_fold ::
  "int \<Rightarrow> (int \<Rightarrow> real) \<Rightarrow> int \<Rightarrow> (int \<Rightarrow> real) option" where
  "perform_fold n out p =
     (if n \<noteq> 0 then perform_fold (n - 1) (out(p := fold_sample (out p))) (p + 1)
      else Some out)"

declare perform_fold.simps [code]

section \<open>granular\_perform64\<close>

text \<open>
  One block of \<open>sampleframes\<close> samples: the seeder loop, the zero fill of the output
  vector, the grain loop, the finisher, and the list of the bounds of the seeder in
  focus sent to the bounds outlet.
\<close>

definition granular_perform64 ::
  "t_granular \<Rightarrow> (int \<Rightarrow> real) \<Rightarrow> int \<Rightarrow> (t_granular \<times> (int \<Rightarrow> real)) option" where
  "granular_perform64 x out sampleframes =
     Option.bind (seeder_loop sampleframes (first_used (seeders_list x)) x) (\<lambda>x1.
     Option.bind (perform_zero sampleframes out 0) (\<lambda>out1.
     Option.bind (grain_loop sampleframes (first_used (grains_list x1)) x1 out1) (\<lambda>(x2, out2).
     Option.bind (perform_fold sampleframes out2 0) (\<lambda>out3.
       let seeder = seeders_arr x2 (seeders_foc x2)
       in Some (x2\<lparr>outl_bounds := outl_bounds x2 @
                   [(real_of_int (src_begin seeder) / buff_msr seeder,
                     real_of_int (src_begin seeder + src_len seeder) / buff_msr seeder)]\<rparr>,
                out3)))))"

section \<open>A host for the worked examples\<close>

text \<open>
  The instances at which the theorems below are exercised start from the engine that
  \<^verbatim>\<open>granular_new\<close> builds on this host: 44.1 kHz, a flat envelope, \<^verbatim>\<open>rand()\<close>
  returning \<open>0\<close>, fresh memory filled with zeros.
\<close>

definition zero_grain :: t_grain where
  "zero_grain =
     \<lparr>g_index = 0, is_new = False, g_ampl = 0, g_src_begin = 0, g_src_len = 0,
      out_begin = 0, g_out_len = 0, out_cntd = 0, src_I = 0, src_R = 0, env_I = 0, env_R = 0\<rparr>"

definition zero_seeder :: t_seeder where
  "zero_seeder =
     \<lparr>index = 0, is_on = False, ampl = 0, src_begin = 0, src_len_ms = 0, src_len = 0,
      shift = 0, shift_r = 0, out_len = 0, period = 0, period_len = 0, speed = 0,
      ampl_rand = 0, begin_rand = 0, length_rand = 0, shift_rand = 0, period_rand = 0,
      buff_samples = (\<lambda>i. 0), buff_n_chn = 0, buff_n_frm = 0, buff_msr = 0, buff_state = 0,
      env_values = (\<lambda>i. 0), poly_cnt = 0, period_cntd = (\<lambda>i. 0)\<rparr>"

definition quiet_host :: t_host where
  "quiet_host =
     \<lparr>sys_getsr = 44100, env_hann = (\<lambda>f. 1), rand_values = (\<lambda>k. 0),
      int_mem = (\<lambda>i. 0), float_mem = (\<lambda>i. 0), grain_mem = (\<lambda>i. zero_grain),
      seeder_mem = (\<lambda>i. zero_seeder)\<rparr>"

text \<open>A buffer of silence.\<close>

definition silence :: "int \<Rightarrow> real" where
  "silence i = 0"

text \<open>The argument vector that holds the atoms \<open>as\<close>.\<close>

definition args_of :: "t_atom list \<Rightarrow> int \<Rightarrow> t_atom" where
  "args_of as k = (if 0 \<le> k \<and> k < int (length as) then as ! nat k else A_LONG 0)"

text \<open>The engine of \<^verbatim>\<open>granular~ 2 gmax\<close> on that host; \<open>small_engine\<close> has 8 grains.\<close>

definition engine :: "int \<Rightarrow> t_granular" where
  "engine gmax = granular_new quiet_host 2 (args_of [A_LONG 2, A_LONG gmax])"

definition small_engine :: t_granular where
  "small_engine = engine 8"

text \<open>
  The engine after seeder 0 has been linked to a silent mono buffer of one second,
  set by the message \<^verbatim>\<open>set_seeder 0 1. 0. 4.54 0. 0.05 1. 0. 1\<close> (source and output
  length 200 samples, period 10 samples, no randomization, one stream) and switched on.
\<close>

definition playing :: "int \<Rightarrow> t_granular" where
  "playing gmax =
     (let x1 = granular_buffer_found (engine gmax) 0 (\<lambda>i. 0) 44100 1 (441 / 10);
          x2 = granular_set_seeder x1 9
                 (args_of [A_LONG 0, A_FLOAT 1, A_FLOAT 0, A_FLOAT (454 / 100), A_FLOAT 0,
                           A_FLOAT (5 / 100), A_FLOAT 1, A_FLOAT 0, A_LONG 1])
      in case granular_seeder_on x2 1 (args_of [A_LONG 0]) of
           None \<Rightarrow> x2
         | Some x3 \<Rightarrow> x3)"

text \<open>
  The engine of \<^verbatim>\<open>granular~ 2 8\<close> with seeder 0 linked to a loaded mono buffer of
  \<open>1000\<close> frames of silence, at 44.1 kHz; the seeder keeps its initial length of
  100 ms, \<open>4410\<close> samples.
\<close>

definition short_buffer_engine :: t_granular where
  "short_buffer_engine = granular_buffer_found small_engine 0 silence 1000 1 (441 / 10)"
section \<open>Values in the range of the 32-bit casts\<close>

lemma int32_of_id: "is_int32 v \<Longrightarrow> int32_of v = v"
  by (simp add: int32_of_def is_int32_def)

lemma c_trunc32_id: "is_int32 (c_trunc r) \<Longrightarrow> c_trunc32 r = c_trunc r"
  by (simp add: c_trunc32_def)

lemma c_trunc_of_int: "c_trunc (real_of_int n) = n"
  by (simp add: c_trunc_def)

lemma c_trunc32_of_int: "is_int32 n \<Longrightarrow> c_trunc32 (real_of_int n) = n"
  by (simp add: c_trunc32_id c_trunc_of_int)

section \<open>Properties of the linked list\<close>

subsection \<open>Segments of links\<close>

lemma seg_upd:
  "seg a p xs q \<Longrightarrow> a' p' = a p \<Longrightarrow> \<forall>x\<in>set xs. a' x = a x \<Longrightarrow> seg a' p' xs q"
  by (induction xs arbitrary: p p') auto

lemma seg_append: "seg a p (xs @ y # ys) q = (seg a p xs y \<and> seg a y ys q)"
  by (induction xs arbitrary: p) auto

lemma seg_last: "seg a p xs q \<Longrightarrow> a (last (p # xs)) = q"
  by (induction xs arbitrary: p) auto

lemma list_walk_seg:
  "seg a p xs LIST_END \<Longrightarrow> LIST_END \<notin> set xs \<Longrightarrow> list_walk a p = Some xs"
  by (induction xs arbitrary: p) (auto simp: list_walk.simps)

lemma list_last_node_seg:
  "seg a p xs LIST_END \<Longrightarrow> LIST_END \<notin> set xs \<Longrightarrow> list_last_node a p = Some (last (p # xs))"
  by (induction xs arbitrary: p) (auto simp: list_last_node.simps)

lemma seg_unlink:
  "seg a p (ys @ x # zs) q \<Longrightarrow> node = last (p # ys) \<Longrightarrow> a' node = a x \<Longrightarrow>
   \<forall>c\<in>set (butlast (p # ys)). a' c = a c \<Longrightarrow> \<forall>c\<in>set zs. a' c = a c \<Longrightarrow>
   seg a' p (ys @ zs) q"
proof (induction ys arbitrary: p)
  case Nil
  then show ?case by (auto intro: seg_upd)
next
  case (Cons y ys)
  then show ?case by auto
qed

lemma seg_link:
  "seg a p (ys @ zs) q \<Longrightarrow> node = last (p # ys) \<Longrightarrow> a' node = x \<Longrightarrow> a' x = a node \<Longrightarrow>
   \<forall>c\<in>set (butlast (p # ys)). a' c = a c \<Longrightarrow> \<forall>c\<in>set zs. a' c = a c \<Longrightarrow>
   seg a' p (ys @ x # zs) q"
proof (induction ys arbitrary: p)
  case Nil
  then show ?case by (auto intro: seg_upd)
next
  case (Cons y ys)
  then show ?case by auto
qed

lemma last_notin_butlast:
  assumes "distinct (p # ys)"
  shows "last (p # ys) \<notin> set (butlast (p # ys))"
proof -
  have "butlast (p # ys) @ [last (p # ys)] = p # ys"
    by (rule append_butlast_last_id) simp
  with assms have "distinct (butlast (p # ys) @ [last (p # ys)])"
    by (simp only:)
  then show ?thesis
    by (simp only: distinct_append distinct.simps set_simps) blast
qed

lemma partitioned_cells:
  assumes "partitioned l us es"
  shows "distinct (first_used l # first_empty l # us @ es)"
    and "LIST_END \<notin> set (us @ es)"
    and "length us + length es = nat (len l)"
proof -
  from assms have d: "distinct (us @ es)" and s: "set (us @ es) = {0..<len l}"
    by (auto simp: partitioned_def)
  from s have r: "\<forall>x\<in>set (us @ es). 0 \<le> x \<and> x < len l" by auto
  have lt: "x < len l" if "x \<in> set (us @ es)" for x
    using r that by blast
  have "first_used l \<notin> set (us @ es)"
    using lt [of "first_used l"] by (auto simp: first_used_def)
  moreover have "first_empty l \<notin> set (us @ es)"
    using lt [of "first_empty l"] by (auto simp: first_empty_def)
  ultimately show "distinct (first_used l # first_empty l # us @ es)"
    using d by (simp add: first_used_def first_empty_def)
  have ge: "0 \<le> x" if "x \<in> set (us @ es)" for x
    using r that by blast
  show "LIST_END \<notin> set (us @ es)"
    using ge [of LIST_END] by (auto simp: LIST_END_def)
  have "card (set (us @ es)) = length (us @ es)" using d by (rule distinct_card)
  then show "length us + length es = nat (len l)" using s by simp
qed


lemma partitioned_insert:
  assumes P: "partitioned l (ys @ zs) (es1 @ e # es2)"
    and a': "array l' = (array l)(last (first_empty l # es1) := array l e,
                                 e := array l (last (first_used l # ys)),
                                 last (first_used l # ys) := e)"
    and n: "len l' = len l"
  shows "partitioned l' (ys @ e # zs) (es1 @ es2)"
proof -
  let ?a = "array l" and ?fu = "first_used l" and ?fe = "first_empty l"
  define node where "node = last (?fu # ys)"
  define enode where "enode = last (?fe # es1)"
  have a'': "array l' = ?a(enode := ?a e, e := ?a node, node := e)"
    unfolding node_def enode_def by (rule a')
  from partitioned_cells(1) [OF P]
  have d: "distinct (?fu # ?fe # (ys @ zs) @ es1 @ e # es2)" .
  from P have su: "seg ?a ?fu (ys @ zs) LIST_END"
    and se: "seg ?a ?fe (es1 @ e # es2) LIST_END"
    and s: "set ((ys @ zs) @ es1 @ e # es2) = {0..<len l}"
    by (auto simp: partitioned_def)
  have mu: "node \<in> set (?fu # ys)" and me: "enode \<in> set (?fe # es1)"
    unfolding node_def enode_def by (rule last_in_set, simp)+
  have du: "distinct (?fu # ys)" and de: "distinct (?fe # es1)"
    using d by auto
  have bu: "node \<notin> set (butlast (?fu # ys))"
    unfolding node_def by (rule last_notin_butlast [OF du])
  have be: "enode \<notin> set (butlast (?fe # es1))"
    unfolding enode_def by (rule last_notin_butlast [OF de])
  have ne: "node \<noteq> e" "enode \<noteq> e" "node \<noteq> enode"
    using d mu me by auto
  have u1: "array l' node = e" by (simp add: a'')
  have u2: "array l' e = ?a node" using ne by (simp add: a'')
  have u3: "\<forall>c\<in>set (butlast (?fu # ys)). array l' c = ?a c"
  proof
    fix c assume c: "c \<in> set (butlast (?fu # ys))"
    then have "c \<in> set (?fu # ys)" by (rule in_set_butlastD)
    with d me have "c \<noteq> e" "c \<noteq> enode" by auto
    moreover from c bu have "c \<noteq> node" by auto
    ultimately show "array l' c = ?a c" by (simp add: a'')
  qed
  have u4: "\<forall>c\<in>set zs. array l' c = ?a c"
  proof
    fix c assume c: "c \<in> set zs"
    with d me mu have "c \<noteq> e" "c \<noteq> enode" "c \<noteq> node" by auto
    then show "array l' c = ?a c" by (simp add: a'')
  qed
  have used: "seg (array l') ?fu (ys @ e # zs) LIST_END"
    by (rule seg_link [OF su node_def u1 u2 u3 u4])
  have e1: "array l' enode = ?a e" using ne by (simp add: a'')
  have e3: "\<forall>c\<in>set (butlast (?fe # es1)). array l' c = ?a c"
  proof
    fix c assume c: "c \<in> set (butlast (?fe # es1))"
    then have "c \<in> set (?fe # es1)" by (rule in_set_butlastD)
    with d mu have "c \<noteq> e" "c \<noteq> node" by auto
    moreover from c be have "c \<noteq> enode" by auto
    ultimately show "array l' c = ?a c" by (simp add: a'')
  qed
  have e4: "\<forall>c\<in>set es2. array l' c = ?a c"
  proof
    fix c assume c: "c \<in> set es2"
    with d me mu have "c \<noteq> e" "c \<noteq> enode" "c \<noteq> node" by auto
    then show "array l' c = ?a c" by (simp add: a'')
  qed
  have empty: "seg (array l') ?fe (es1 @ es2) LIST_END"
    by (rule seg_unlink [OF se enode_def e1 e3 e4])
  have "distinct ((ys @ e # zs) @ es1 @ es2)" using d by auto
  moreover have "set ((ys @ e # zs) @ es1 @ es2) = {0..<len l'}"
    using s n by auto
  ultimately show ?thesis
    using used empty n by (simp add: partitioned_def first_used_def first_empty_def)
qed

lemma partitioned_remove:
  assumes P: "partitioned l (ys @ x # zs) es"
    and a': "array l' = (array l)(last (first_used l # ys) := array l x,
                                 x := array l (first_empty l),
                                 first_empty l := x)"
    and n: "len l' = len l"
  shows "partitioned l' (ys @ zs) (x # es)"
proof -
  let ?a = "array l" and ?fu = "first_used l" and ?fe = "first_empty l"
  define node where "node = last (?fu # ys)"
  have a'': "array l' = ?a(node := ?a x, x := ?a ?fe, ?fe := x)"
    unfolding node_def by (rule a')
  from partitioned_cells(1) [OF P]
  have d: "distinct (?fu # ?fe # (ys @ x # zs) @ es)" .
  from P have su: "seg ?a ?fu (ys @ x # zs) LIST_END"
    and se: "seg ?a ?fe es LIST_END"
    and s: "set ((ys @ x # zs) @ es) = {0..<len l}"
    by (auto simp: partitioned_def)
  have mu: "node \<in> set (?fu # ys)"
    unfolding node_def by (rule last_in_set) simp
  have du: "distinct (?fu # ys)"
    using d by auto
  have bu: "node \<notin> set (butlast (?fu # ys))"
    unfolding node_def by (rule last_notin_butlast [OF du])
  have ne: "node \<noteq> x" "node \<noteq> ?fe" "x \<noteq> ?fe"
    using d mu by auto
  have u1: "array l' node = ?a x" using ne by (simp add: a'')
  have u3: "\<forall>c\<in>set (butlast (?fu # ys)). array l' c = ?a c"
  proof
    fix c assume c: "c \<in> set (butlast (?fu # ys))"
    then have "c \<in> set (?fu # ys)" by (rule in_set_butlastD)
    with d have "c \<noteq> x" "c \<noteq> ?fe" by auto
    moreover from c bu have "c \<noteq> node" by auto
    ultimately show "array l' c = ?a c" by (simp add: a'')
  qed
  have u4: "\<forall>c\<in>set zs. array l' c = ?a c"
  proof
    fix c assume c: "c \<in> set zs"
    with d mu have "c \<noteq> x" "c \<noteq> ?fe" "c \<noteq> node" by auto
    then show "array l' c = ?a c" by (simp add: a'')
  qed
  have used: "seg (array l') ?fu (ys @ zs) LIST_END"
    by (rule seg_unlink [OF su node_def u1 u3 u4])
  have e0: "seg ?a ?fe ([] @ es) LIST_END" using se by simp
  have e1: "array l' ?fe = x" by (simp add: a'')
  have e2: "array l' x = ?a ?fe" using ne by (simp add: a'')
  have e4: "\<forall>c\<in>set es. array l' c = ?a c"
  proof
    fix c assume c: "c \<in> set es"
    with d mu have "c \<noteq> x" "c \<noteq> ?fe" "c \<noteq> node" by auto
    then show "array l' c = ?a c" by (simp add: a'')
  qed
  have "seg (array l') ?fe ([] @ x # es) LIST_END"
    by (rule seg_link [OF e0 _ e1 e2 _ e4]) simp_all
  then have empty: "seg (array l') ?fe (x # es) LIST_END" by simp
  have "distinct ((ys @ zs) @ x # es)" using d by auto
  moreover have "set ((ys @ zs) @ x # es) = {0..<len l'}"
    using s n by auto
  ultimately show ?thesis
    using used empty n by (simp add: partitioned_def first_used_def first_empty_def)
qed

subsection \<open>What the loops compute on a well-formed list\<close>


lemma seg_at: "seg a p (ys @ x # zs) q \<Longrightarrow> a (last (p # ys)) = x"
  by (simp only: seg_append seg_last)

lemma list_nth_node_seg:
  "seg a p xs LIST_END \<Longrightarrow> LIST_END \<notin> set xs \<Longrightarrow>
   list_nth_node a p cnt = last (p # take (nat cnt) xs)"
proof (induction xs arbitrary: p cnt)
  case Nil
  then show ?case by (subst list_nth_node.simps) simp
next
  case (Cons x xs)
  show ?case
  proof (cases "cnt > 0")
    case True
    then have t: "take (nat cnt) (x # xs) = x # take (nat (cnt - 1)) xs"
      by (simp add: take_Cons' nat_diff_distrib)
    from Cons.prems have "a p = x" "x \<noteq> LIST_END" "seg a x xs LIST_END" "LIST_END \<notin> set xs"
      by auto
    with True Cons.IH [of x "cnt - 1"] show ?thesis
      by (subst list_nth_node.simps) (simp add: t)
  next
    case False
    then show ?thesis by (subst list_nth_node.simps) simp
  qed
qed

lemma list_find_node_seg:
  "seg a p xs LIST_END \<Longrightarrow> LIST_END \<notin> set xs \<Longrightarrow>
   list_find_node a p i = Some (last (p # takeWhile (\<lambda>x. x \<noteq> i) xs))"
proof (induction xs arbitrary: p)
  case Nil
  then show ?case by (subst list_find_node.simps) simp
next
  case (Cons x xs)
  then show ?case by (subst list_find_node.simps) auto
qed

lemma list_last_link_seg:
  "seg a p (xs @ [x]) LIST_END \<Longrightarrow> LIST_END \<notin> set (xs @ [x]) \<Longrightarrow>
   list_last_link a p (a p) = Some (last (p # xs))"
proof (induction xs arbitrary: p)
  case Nil
  then show ?case by (subst list_last_link.simps) simp
next
  case (Cons y ys)
  from Cons.prems have ap: "a p = y" and s: "seg a y (ys @ [x]) LIST_END"
    and n: "LIST_END \<notin> set (ys @ [x])" by auto
  have "a y \<noteq> LIST_END"
    using s n by (cases ys) auto
  with ap Cons.IH [OF s n] show ?case
    by (subst list_last_link.simps) simp
qed

lemma list_walk_Some_seg:
  "list_walk a p = Some xs \<Longrightarrow> seg a p xs LIST_END \<and> LIST_END \<notin> set xs"
proof (induction xs arbitrary: p)
  case Nil
  then show ?case
    by (subst (asm) list_walk.simps) (auto split: if_splits Option.bind_splits)
next
  case (Cons x xs)
  from Cons.prems have "a p \<noteq> LIST_END \<and> a p = x \<and> list_walk a x = Some xs"
    by (subst (asm) list_walk.simps) (auto split: if_splits Option.bind_splits)
  with Cons.IH [of x] show ?case by auto
qed

lemma partitioned_walks:
  assumes "partitioned l us es"
  shows "used_list l = Some us" and "empty_list l = Some es"
proof -
  from partitioned_cells(2) [OF assms] have "LIST_END \<notin> set us" "LIST_END \<notin> set es"
    by auto
  with assms show "used_list l = Some us" and "empty_list l = Some es"
    by (auto simp: partitioned_def used_list_def empty_list_def intro: list_walk_seg)
qed

lemma partition_inv_iff:
  "partition_inv l = (\<exists>us es. partitioned l us es)"
proof
  assume "partition_inv l"
  then obtain us es where u: "used_list l = Some us" and e: "empty_list l = Some es"
    and d: "distinct (us @ es)" "set (us @ es) = {0..<len l}"
    by (auto simp: partition_inv_def split: option.splits)
  from u e have "seg (array l) (first_used l) us LIST_END" "seg (array l) (first_empty l) es LIST_END"
    by (auto simp: used_list_def empty_list_def dest: list_walk_Some_seg)
  with d have "partitioned l us es" by (simp add: partitioned_def)
  then show "\<exists>us es. partitioned l us es" by blast
next
  assume "\<exists>us es. partitioned l us es"
  then obtain us es where P: "partitioned l us es" by blast
  from partitioned_walks [OF P] P show "partition_inv l"
    by (simp add: partition_inv_def partitioned_def)
qed

subsection \<open>Insertion and removal at a cursor\<close>

lemma confined_refl: "confined l l"
  by (simp add: confined_def)

lemma partitioned_range:
  assumes "partitioned l us es" and "c \<in> set (first_used l # first_empty l # us @ es)"
    and "us @ es \<noteq> []"
  shows "0 \<le> c \<and> c \<le> len l + 1"
proof -
  from assms(1) have s: "set (us @ es) = {0..<len l}" by (simp add: partitioned_def)
  from assms(3) obtain y where "y \<in> set (us @ es)" by (cases "us @ es") auto
  with s have "0 \<le> y" "y < len l" by auto
  moreover have "0 \<le> c \<and> c < len l" if "c \<in> set (us @ es)"
    using that s by auto
  ultimately show ?thesis
    using assms(2) by (auto simp: first_used_def first_empty_def)
qed

lemma insert_at:
  assumes P: "partitioned l (ys @ zs) (e # es)" and node: "node = last (first_used l # ys)"
  shows "fst (list_insert_node l node) = e"
    and "partitioned (snd (list_insert_node l node)) (ys @ e # zs) es"
    and "confined l (snd (list_insert_node l node))"
proof -
  let ?a = "array l" and ?fu = "first_used l" and ?fe = "first_empty l"
  let ?l' = "l\<lparr>array := ?a(?fe := ?a e, e := ?a node, node := e)\<rparr>"
  from partitioned_cells [OF P]
  have d: "distinct (?fu # ?fe # (ys @ zs) @ e # es)" and ne: "LIST_END \<notin> set ((ys @ zs) @ e # es)"
    by auto
  from P have fe: "?a ?fe = e" by (simp add: partitioned_def)
  have mu: "node \<in> set (?fu # ys)" unfolding node by (rule last_in_set) simp
  with d have nfe: "node \<noteq> ?fe" by auto
  from ne fe have "?a ?fe \<noteq> LIST_END" by auto
  then have run: "list_insert_node l node = (e, ?l')"
    using fe nfe by (simp add: list_insert_node_def Let_def)
  show "fst (list_insert_node l node) = e" by (simp add: run)
  have "partitioned ?l' (ys @ e # zs) ([] @ es)"
    by (rule partitioned_insert [where ?es1.0 = "[]"]) (use P node in simp_all)
  then show "partitioned (snd (list_insert_node l node)) (ys @ e # zs) es"
    by (simp add: run)
  have r: "0 \<le> c \<and> c \<le> len l + 1" if "c \<in> set (?fu # ?fe # (ys @ zs) @ e # es)" for c
    by (rule partitioned_range [OF P that]) simp
  from r [of ?fe] r [of e] r [of node] mu
  have "0 \<le> ?fe \<and> ?fe \<le> len l + 1" "0 \<le> e \<and> e \<le> len l + 1" "0 \<le> node \<and> node \<le> len l + 1"
    by auto
  then show "confined l (snd (list_insert_node l node))"
    by (auto simp: run confined_def)
qed

lemma remove_at:
  assumes P: "partitioned l (ys @ x # zs) es" and node: "node = last (first_used l # ys)"
  shows "fst (list_remove_node l node) = x"
    and "partitioned (snd (list_remove_node l node)) (ys @ zs) (x # es)"
    and "confined l (snd (list_remove_node l node))"
proof -
  let ?a = "array l" and ?fu = "first_used l" and ?fe = "first_empty l"
  let ?l' = "l\<lparr>array := ?a(node := ?a x, x := ?a ?fe, ?fe := x)\<rparr>"
  from partitioned_cells [OF P]
  have d: "distinct (?fu # ?fe # (ys @ x # zs) @ es)" and ne: "LIST_END \<notin> set ((ys @ x # zs) @ es)"
    by auto
  from P have su: "seg ?a ?fu (ys @ x # zs) LIST_END" by (simp add: partitioned_def)
  then have an: "?a node = x" unfolding node by (rule seg_at)
  have "?a ?fu \<noteq> LIST_END"
    using su ne by (cases ys) auto
  moreover have mu: "node \<in> set (?fu # ys)" unfolding node by (rule last_in_set) simp
  with d have nfe: "node \<noteq> ?fe" by auto
  ultimately have run: "list_remove_node l node = (x, ?l')"
    using an by (simp add: list_remove_node_def Let_def)
  show "fst (list_remove_node l node) = x" by (simp add: run)
  have "partitioned ?l' (ys @ zs) (x # es)"
    by (rule partitioned_remove) (use P node in simp_all)
  then show "partitioned (snd (list_remove_node l node)) (ys @ zs) (x # es)"
    by (simp add: run)
  have r: "0 \<le> c \<and> c \<le> len l + 1" if "c \<in> set (?fu # ?fe # (ys @ x # zs) @ es)" for c
    by (rule partitioned_range [OF P that]) simp
  from r [of ?fe] r [of x] r [of node] mu
  have "0 \<le> ?fe \<and> ?fe \<le> len l + 1" "0 \<le> x \<and> x \<le> len l + 1" "0 \<le> node \<and> node \<le> len l + 1"
    by auto
  then show "confined l (snd (list_remove_node l node))"
    by (auto simp: run confined_def)
qed

lemma list_insert_first_node: "list_insert_first l = list_insert_node l (first_used l)"
  by (simp add: list_insert_first_def list_insert_node_def)

lemma list_insert_nth_node:
  "list_insert_nth l n = list_insert_node l (list_nth_node (array l) (first_used l) n)"
  by (simp add: list_insert_nth_def list_insert_node_def Let_def)

lemma list_remove_first_node: "list_remove_first l = list_remove_node l (first_used l)"
  by (simp add: list_remove_first_def list_remove_node_def)

lemma list_remove_nth_node:
  "list_remove_nth l n =
     (if array l (list_nth_node (array l) (first_used l) n) = LIST_END
         \<and> array l (first_used l) \<noteq> LIST_END
      then (LIST_ERR_ARG, l)
      else list_remove_node l (list_nth_node (array l) (first_used l) n))"
  by (simp add: list_remove_nth_def list_remove_node_def Let_def)

lemma full_unchanged:
  assumes P: "partitioned l us []"
  shows "list_insert_first l = (LIST_ERR_FULL, l)"
    and "list_insert_node l node = (LIST_ERR_FULL, l)"
    and "list_insert_nth l n = (LIST_ERR_FULL, l)"
    and "list_insert_last l = Some (LIST_ERR_FULL, l)"
proof -
  from P have "array l (first_empty l) = LIST_END" by (simp add: partitioned_def)
  then show "list_insert_first l = (LIST_ERR_FULL, l)"
    and "list_insert_node l node = (LIST_ERR_FULL, l)"
    and "list_insert_nth l n = (LIST_ERR_FULL, l)"
    and "list_insert_last l = Some (LIST_ERR_FULL, l)"
    by (simp_all add: list_insert_first_def list_insert_node_def list_insert_nth_def
        list_insert_last_def)
qed

lemma empty_unchanged:
  assumes P: "partitioned l [] es"
  shows "list_remove_first l = (LIST_ERR_EMPTY, l)"
    and "list_remove_node l node = (LIST_ERR_EMPTY, l)"
    and "list_remove_nth l n = (LIST_ERR_EMPTY, l)"
    and "list_remove_last l = Some (LIST_ERR_EMPTY, l)"
proof -
  from P have "array l (first_used l) = LIST_END" by (simp add: partitioned_def)
  then show "list_remove_first l = (LIST_ERR_EMPTY, l)"
    and "list_remove_node l node = (LIST_ERR_EMPTY, l)"
    and "list_remove_nth l n = (LIST_ERR_EMPTY, l)"
    and "list_remove_last l = Some (LIST_ERR_EMPTY, l)"
    by (simp_all add: list_remove_first_def list_remove_node_def list_remove_nth_def
        list_remove_last_def)
qed

subsection \<open>Insertion and removal by position and by index\<close>

lemma insert_last_ok:
  assumes P: "partitioned l us (e # es)"
  shows "\<exists>l'. list_insert_last l = Some (e, l') \<and> partitioned l' (us @ [e]) es \<and> confined l l'"
proof -
  let ?a = "array l" and ?fu = "first_used l" and ?fe = "first_empty l"
  define node where "node = last (?fu # us)"
  let ?l' = "l\<lparr>array := ?a(?fe := ?a e, e := ?a node, node := e)\<rparr>"
  from partitioned_cells [OF P]
  have d: "distinct (?fu # ?fe # us @ e # es)" and ne: "LIST_END \<notin> set (us @ e # es)"
    by auto
  from P have fe: "?a ?fe = e" and su: "seg ?a ?fu us LIST_END"
    by (simp_all add: partitioned_def)
  have mu: "node \<in> set (?fu # us)" unfolding node_def by (rule last_in_set) simp
  with d have nn: "node \<noteq> ?fe" "node \<noteq> e" "e \<noteq> ?fe" by auto
  from ne fe have full: "?a ?fe \<noteq> LIST_END" by auto
  have an: "?a node = LIST_END" unfolding node_def by (rule seg_last [OF su])
  have loop: "list_last_node ?a ?fu = Some node"
    unfolding node_def using su ne by (intro list_last_node_seg) auto
  have arr: "(?a(node := e, ?fe := ?a e, e := LIST_END)) = ?a(?fe := ?a e, e := ?a node, node := e)"
    using nn an by (auto simp: fun_eq_iff)
  have run: "list_insert_last l = Some (e, ?l')"
    using full loop fe nn arr by (simp add: list_insert_last_def Let_def)
  have P': "partitioned l (us @ []) (e # es)" using P by simp
  from insert_at [OF P' node_def] nn fe full
  have "partitioned ?l' (us @ [e]) es" "confined l ?l'"
    by (simp_all add: list_insert_node_def Let_def)
  with run show ?thesis by blast
qed

lemma remove_last_ok:
  assumes P: "partitioned l (us @ [x]) es"
  shows "\<exists>l'. list_remove_last l = Some (LIST_END, l') \<and> partitioned l' us (x # es) \<and> confined l l'"
proof -
  let ?a = "array l" and ?fu = "first_used l" and ?fe = "first_empty l"
  define node where "node = last (?fu # us)"
  let ?l' = "l\<lparr>array := ?a(node := ?a x, x := ?a ?fe, ?fe := x)\<rparr>"
  from partitioned_cells [OF P]
  have d: "distinct (?fu # ?fe # (us @ [x]) @ es)" and ne: "LIST_END \<notin> set ((us @ [x]) @ es)"
    by auto
  from P have su: "seg ?a ?fu (us @ [x]) LIST_END"
    by (simp_all add: partitioned_def)
  have mu: "node \<in> set (?fu # us)" unfolding node_def by (rule last_in_set) simp
  with d have nn: "node \<noteq> ?fe" "node \<noteq> x" "x \<noteq> ?fe" by auto
  have an: "?a node = x" unfolding node_def by (rule seg_at [OF su])
  have ax: "?a x = LIST_END" using su by (simp add: seg_append)
  have nonempty: "?a ?fu \<noteq> LIST_END"
    using su ne by (cases us) auto
  have loop: "list_last_link ?a ?fu (?a ?fu) = Some node"
    unfolding node_def using su ne by (intro list_last_link_seg) auto
  have arr: "(?a(x := ?a ?fe, ?fe := x, node := LIST_END)) = ?a(node := ?a x, x := ?a ?fe, ?fe := x)"
    using nn ax by (auto simp: fun_eq_iff)
  have run: "list_remove_last l = Some (LIST_END, ?l')"
    using nonempty loop an nn arr by (simp add: list_remove_last_def Let_def)
  from remove_at [OF P, of node] node_def nn an nonempty
  have "partitioned ?l' us (x # es)" "confined l ?l'"
    by (simp_all add: list_remove_node_def Let_def)
  with run show ?thesis by blast
qed

lemma remove_index_found:
  assumes P: "partitioned l (ys @ i # zs) es"
  shows "\<exists>l'. list_remove_index l i = Some (i, l') \<and> partitioned l' (ys @ zs) (i # es) \<and> confined l l'"
proof -
  let ?a = "array l" and ?fu = "first_used l" and ?fe = "first_empty l"
  define node where "node = last (?fu # ys)"
  let ?l' = "l\<lparr>array := ?a(node := ?a i, i := ?a ?fe, ?fe := i)\<rparr>"
  from partitioned_cells [OF P]
  have d: "distinct (?fu # ?fe # (ys @ i # zs) @ es)" and ne: "LIST_END \<notin> set ((ys @ i # zs) @ es)"
    by auto
  from P have su: "seg ?a ?fu (ys @ i # zs) LIST_END"
    by (simp_all add: partitioned_def)
  have mu: "node \<in> set (?fu # ys)" unfolding node_def by (rule last_in_set) simp
  with d have nn: "node \<noteq> ?fe" "node \<noteq> i" "i \<noteq> ?fe" by auto
  have an: "?a node = i" unfolding node_def by (rule seg_at [OF su])
  from ne have iend: "i \<noteq> LIST_END" by auto
  have nonempty: "?a ?fu \<noteq> LIST_END"
    using su ne by (cases ys) auto
  from d have "i \<notin> set ys" by auto
  then have tw: "takeWhile (\<lambda>x. x \<noteq> i) (ys @ i # zs) = ys"
    by (simp add: takeWhile_append)
  have loop: "list_find_node ?a ?fu i = Some node"
    unfolding node_def using list_find_node_seg [OF su, of i] ne by (simp add: tw)
  have run: "list_remove_index l i = Some (i, ?l')"
    using loop an nn iend by (simp add: list_remove_index_def Let_def)
  from remove_at [OF P, of node] node_def nn an nonempty
  have "partitioned ?l' (ys @ zs) (i # es)" "confined l ?l'"
    by (simp_all add: list_remove_node_def Let_def)
  with run show ?thesis by blast
qed

lemma remove_index_missing:
  assumes P: "partitioned l us es" and i: "i \<notin> set us"
  shows "list_remove_index l i = Some (LIST_NOT_FOUND, l)"
proof -
  let ?a = "array l" and ?fu = "first_used l"
  from partitioned_cells [OF P] have ne: "LIST_END \<notin> set us" by auto
  from P have su: "seg ?a ?fu us LIST_END" by (simp add: partitioned_def)
  from i have tw: "takeWhile (\<lambda>x. x \<noteq> i) us = us" by auto
  have loop: "list_find_node ?a ?fu i = Some (last (?fu # us))"
    using list_find_node_seg [OF su ne, of i] by (simp only: tw)
  have "?a (last (?fu # us)) = LIST_END" by (rule seg_last [OF su])
  with loop show ?thesis by (simp add: list_remove_index_def)
qed

lemma insert_index_found:
  assumes P: "partitioned l us (es1 @ i # es2)"
  shows "\<exists>l'. list_insert_index l i = Some (i, l') \<and> partitioned l' (i # us) (es1 @ es2) \<and> confined l l'"
proof -
  let ?a = "array l" and ?fu = "first_used l" and ?fe = "first_empty l"
  define node where "node = last (?fe # es1)"
  let ?l' = "l\<lparr>array := ?a(node := ?a i, i := ?a ?fu, ?fu := i)\<rparr>"
  from partitioned_cells [OF P]
  have d: "distinct (?fu # ?fe # us @ es1 @ i # es2)" and ne: "LIST_END \<notin> set (us @ es1 @ i # es2)"
    by auto
  from P have se: "seg ?a ?fe (es1 @ i # es2) LIST_END"
    by (simp_all add: partitioned_def)
  have mu: "node \<in> set (?fe # es1)" unfolding node_def by (rule last_in_set) simp
  with d have nn: "node \<noteq> ?fu" "node \<noteq> i" "i \<noteq> ?fu" by auto
  have an: "?a node = i" unfolding node_def by (rule seg_at [OF se])
  from ne have iend: "i \<noteq> LIST_END" by auto
  from d have "i \<notin> set es1" by auto
  then have tw: "takeWhile (\<lambda>x. x \<noteq> i) (es1 @ i # es2) = es1"
    by (simp add: takeWhile_append)
  have loop: "list_find_node ?a ?fe i = Some node"
    unfolding node_def using list_find_node_seg [OF se, of i] ne by (simp add: tw)
  have run: "list_insert_index l i = Some (i, ?l')"
    using loop an nn iend by (simp add: list_insert_index_def Let_def)
  have P0: "partitioned l ([] @ us) (es1 @ i # es2)" using P by simp
  have "partitioned ?l' ([] @ i # us) (es1 @ es2)"
    by (rule partitioned_insert [OF P0]) (simp_all add: node_def)
  then have part: "partitioned ?l' (i # us) (es1 @ es2)" by simp
  have r: "0 \<le> c \<and> c \<le> len l + 1" if "c \<in> set (?fu # ?fe # us @ es1 @ i # es2)" for c
    by (rule partitioned_range [OF P that]) simp
  from r [of ?fu] r [of i] r [of node] mu
  have "0 \<le> ?fu \<and> ?fu \<le> len l + 1" "0 \<le> i \<and> i \<le> len l + 1" "0 \<le> node \<and> node \<le> len l + 1"
    by auto
  then have "confined l ?l'"
    by (auto simp: confined_def)
  with run part show ?thesis by blast
qed

lemma insert_index_missing:
  assumes P: "partitioned l us es" and i: "i \<notin> set es"
  shows "list_insert_index l i = Some (LIST_NOT_FOUND, l)"
proof -
  let ?a = "array l" and ?fe = "first_empty l"
  from partitioned_cells [OF P] have ne: "LIST_END \<notin> set es" by auto
  from P have se: "seg ?a ?fe es LIST_END" by (simp add: partitioned_def)
  from i have tw: "takeWhile (\<lambda>x. x \<noteq> i) es = es" by auto
  have loop: "list_find_node ?a ?fe i = Some (last (?fe # es))"
    using list_find_node_seg [OF se ne, of i] by (simp only: tw)
  have "?a (last (?fe # es)) = LIST_END" by (rule seg_last [OF se])
  with loop show ?thesis by (simp add: list_insert_index_def)
qed

subsection \<open>Every operation keeps the partition\<close>

lemma partitioned_keeps:
  assumes "partitioned l' us es" and "confined l l'"
  shows "keeps_partition l l'"
proof -
  from assms(1) have "partition_inv l'" by (auto simp: partition_inv_iff)
  moreover have "lengths_sum l'"
    using partitioned_walks [OF assms(1)] partitioned_cells(3) [OF assms(1)]
    by (simp add: lengths_sum_def)
  ultimately show ?thesis using assms(2) by (simp add: keeps_partition_def)
qed

lemma cursor_split:
  assumes "node \<in> set (p # xs)"
  shows "\<exists>ys zs. xs = ys @ zs \<and> node = last (p # ys)"
proof -
  from assms obtain as bs where s: "p # xs = as @ node # bs"
    by (meson split_list)
  show ?thesis
  proof (cases as)
    case Nil
    with s have "xs = [] @ bs \<and> node = last (p # [])" by simp
    then show ?thesis by blast
  next
    case (Cons a as')
    with s have "xs = (as' @ [node]) @ bs \<and> node = last (p # as' @ [node])" by simp
    then show ?thesis by blast
  qed
qed

lemma insert_node_keeps:
  assumes P: "partitioned l us es" and c: "node \<in> set (first_used l # us)"
  shows "keeps_partition l (snd (list_insert_node l node))"
proof (cases es)
  case Nil
  with P have "list_insert_node l node = (LIST_ERR_FULL, l)" by (simp add: full_unchanged)
  with P show ?thesis by (simp add: partitioned_keeps confined_refl)
next
  case (Cons e es')
  from cursor_split [OF c] obtain ys zs where us: "us = ys @ zs" and n: "node = last (first_used l # ys)"
    by blast
  from P us Cons have P': "partitioned l (ys @ zs) (e # es')" by simp
  from insert_at(2,3) [OF P' n] show ?thesis by (rule partitioned_keeps)
qed

lemma remove_node_keeps:
  assumes P: "partitioned l us es" and c: "node \<in> set (first_used l # us)"
    and v: "array l node \<noteq> LIST_END"
  shows "keeps_partition l (snd (list_remove_node l node))"
proof -
  from cursor_split [OF c] obtain ys zs where us: "us = ys @ zs" and n: "node = last (first_used l # ys)"
    by blast
  from P us have su: "seg (array l) (first_used l) (ys @ zs) LIST_END" by (simp add: partitioned_def)
  have "zs \<noteq> []"
  proof
    assume "zs = []"
    with su have "seg (array l) (first_used l) ys LIST_END" by simp
    then have "array l (last (first_used l # ys)) = LIST_END" by (rule seg_last)
    with n v show False by simp
  qed
  then obtain x zs' where zs: "zs = x # zs'" by (cases zs) auto
  from P us zs have P': "partitioned l (ys @ x # zs') es" by simp
  from remove_at(2,3) [OF P' n] show ?thesis by (rule partitioned_keeps)
qed

lemma insert_nth_keeps:
  assumes P: "partitioned l us es"
  shows "keeps_partition l (snd (list_insert_nth l n))"
proof -
  from partitioned_cells(2) [OF P] have ne: "LIST_END \<notin> set us" by auto
  from P have su: "seg (array l) (first_used l) us LIST_END" by (simp add: partitioned_def)
  have "list_nth_node (array l) (first_used l) n = last (first_used l # take (nat n) us)"
    by (rule list_nth_node_seg [OF su ne])
  also have "\<dots> \<in> set (first_used l # take (nat n) us)" by (rule last_in_set) simp
  finally have "list_nth_node (array l) (first_used l) n \<in> set (first_used l # us)"
    by (auto dest: in_set_takeD)
  from insert_node_keeps [OF P this] show ?thesis by (simp add: list_insert_nth_node)
qed

lemma remove_nth_keeps:
  assumes P: "partitioned l us es"
  shows "keeps_partition l (snd (list_remove_nth l n))"
proof -
  let ?node = "list_nth_node (array l) (first_used l) n"
  from partitioned_cells(2) [OF P] have ne: "LIST_END \<notin> set us" by auto
  from P have su: "seg (array l) (first_used l) us LIST_END" by (simp add: partitioned_def)
  have "?node = last (first_used l # take (nat n) us)"
    by (rule list_nth_node_seg [OF su ne])
  also have "\<dots> \<in> set (first_used l # take (nat n) us)" by (rule last_in_set) simp
  finally have c: "?node \<in> set (first_used l # us)"
    by (auto dest: in_set_takeD)
  show ?thesis
  proof (cases "array l ?node = LIST_END")
    case True
    then have "snd (list_remove_nth l n) = l"
      by (simp add: list_remove_nth_def Let_def)
    with P show ?thesis by (simp add: partitioned_keeps confined_refl)
  next
    case False
    from remove_node_keeps [OF P c False] False show ?thesis
      by (simp add: list_remove_nth_node)
  qed
qed

lemma insert_last_keeps:
  assumes P: "partitioned l us es"
  shows "\<exists>r l'. list_insert_last l = Some (r, l') \<and> keeps_partition l l'"
proof (cases es)
  case Nil
  with P have "list_insert_last l = Some (LIST_ERR_FULL, l)" by (simp add: full_unchanged)
  with P show ?thesis by (auto simp: partitioned_keeps confined_refl)
next
  case (Cons e es')
  with insert_last_ok [of l us e es'] P show ?thesis
    by (auto intro: partitioned_keeps)
qed

lemma remove_last_keeps:
  assumes P: "partitioned l us es"
  shows "\<exists>r l'. list_remove_last l = Some (r, l') \<and> keeps_partition l l'"
proof (cases us rule: rev_cases)
  case Nil
  with P have "list_remove_last l = Some (LIST_ERR_EMPTY, l)" by (simp add: empty_unchanged)
  with P show ?thesis by (auto simp: partitioned_keeps confined_refl)
next
  case (snoc us' x)
  with remove_last_ok [of l us' x es] P show ?thesis
    by (auto intro: partitioned_keeps)
qed

lemma insert_index_keeps:
  assumes P: "partitioned l us es"
  shows "\<exists>r l'. list_insert_index l i = Some (r, l') \<and> keeps_partition l l'"
proof (cases "i \<in> set es")
  case True
  then obtain es1 es2 where "es = es1 @ i # es2" by (meson split_list)
  with insert_index_found [of l us es1 i es2] P show ?thesis
    by (auto intro: partitioned_keeps)
next
  case False
  from insert_index_missing [OF P False] P show ?thesis
    by (auto simp: partitioned_keeps confined_refl)
qed

lemma remove_index_keeps:
  assumes P: "partitioned l us es"
  shows "\<exists>r l'. list_remove_index l i = Some (r, l') \<and> keeps_partition l l'"
proof (cases "i \<in> set us")
  case True
  then obtain ys zs where "us = ys @ i # zs" by (meson split_list)
  with remove_index_found [of l ys i zs es] P show ?thesis
    by (auto intro: partitioned_keeps)
next
  case False
  from remove_index_missing [OF P False] P show ?thesis
    by (auto simp: partitioned_keeps confined_refl)
qed

text \<open>
  Claim C7. On a list whose indices \<open>0..len - 1\<close> are partitioned between the used and
  the empty list, every operation returns, and the list it leaves is partitioned again
  (\<open>partition_inv\<close>), the lengths of its two lists sum to \<open>len\<close> (\<open>lengths_sum\<close>), and
  it has the same capacity and has written no cell outside the array that
  \<^verbatim>\<open>list_new\<close> allocated (\<open>confined\<close>): \<^verbatim>\<open>list_insert_first\<close> (acquire\_front),
  \<^verbatim>\<open>list_insert_index\<close> (acquire\_by\_index), \<^verbatim>\<open>list_remove_node\<close> at a cursor of the
  used list that addresses a node (release of the visited node), \<^verbatim>\<open>list_remove_index\<close>
  (release\_by\_index), the nth and last variants of insert and remove,
  \<^verbatim>\<open>list_remove_first\<close>, and \<^verbatim>\<open>list_insert_node\<close> at a cursor of the used list.
\<close>

theorem list_operations_keep_partition:
  assumes "partition_inv list"
  shows "keeps_partition list (snd (list_insert_first list)) \<and>
         (\<forall>index. \<exists>r list'. list_insert_index list index = Some (r, list') \<and>
                     keeps_partition list list') \<and>
         (\<forall>node. cursor list node \<and> array list node \<noteq> LIST_END \<longrightarrow>
                     keeps_partition list (snd (list_remove_node list node))) \<and>
         (\<forall>index. \<exists>r list'. list_remove_index list index = Some (r, list') \<and>
                     keeps_partition list list') \<and>
         (\<forall>n. keeps_partition list (snd (list_insert_nth list n))) \<and>
         (\<exists>r list'. list_insert_last list = Some (r, list') \<and> keeps_partition list list') \<and>
         (\<forall>n. keeps_partition list (snd (list_remove_nth list n))) \<and>
         (\<exists>r list'. list_remove_last list = Some (r, list') \<and> keeps_partition list list') \<and>
         keeps_partition list (snd (list_remove_first list)) \<and>
         (\<forall>node. cursor list node \<longrightarrow>
                     keeps_partition list (snd (list_insert_node list node))) \<and>
         lengths_sum list"
proof -
  from assms obtain us es where P: "partitioned list us es"
    by (auto simp: partition_inv_iff)
  have u: "used_list list = Some us" by (rule partitioned_walks(1) [OF P])
  have fu: "first_used list \<in> set (first_used list # us)" by simp
  have 1: "keeps_partition list (snd (list_insert_first list))"
    using insert_node_keeps [OF P fu] by (simp add: list_insert_first_node)
  have 3: "\<forall>node. cursor list node \<and> array list node \<noteq> LIST_END \<longrightarrow>
                     keeps_partition list (snd (list_remove_node list node))"
    using remove_node_keeps [OF P] by (simp add: cursor_def u)
  have 9: "keeps_partition list (snd (list_remove_first list))"
  proof (cases us)
    case Nil
    with P show ?thesis by (simp add: empty_unchanged partitioned_keeps confined_refl)
  next
    case (Cons x xs)
    with P have "array list (first_used list) \<noteq> LIST_END"
      using partitioned_cells(2) [OF P] by (auto simp: partitioned_def)
    from remove_node_keeps [OF P fu this] show ?thesis by (simp add: list_remove_first_node)
  qed
  have 10: "\<forall>node. cursor list node \<longrightarrow>
                     keeps_partition list (snd (list_insert_node list node))"
    using insert_node_keeps [OF P] by (simp add: cursor_def u)
  have 11: "lengths_sum list"
    using partitioned_walks [OF P] partitioned_cells(3) [OF P] by (simp add: lengths_sum_def)
  show ?thesis
    using 1 insert_index_keeps [OF P] 3 remove_index_keeps [OF P] insert_nth_keeps [OF P]
      insert_last_keeps [OF P] remove_nth_keeps [OF P] remove_last_keeps [OF P] 9 10 11
    by (intro conjI allI) blast+
qed

subsection \<open>A fresh list hands out its indices in order\<close>

lemma list_new_fill_eq:
  "list_new_fill n i a = (\<lambda>j. if i \<le> j \<and> j < n - 1 then j + 1 else a j)"
proof (induction n i a rule: list_new_fill.induct)
  case (1 n i a)
  show ?case
  proof (cases "i < n - 1")
    case True
    then have "list_new_fill n i a = list_new_fill n (i + 1) (a(i := i + 1))"
      by (subst list_new_fill.simps) simp
    also have "\<dots> = (\<lambda>j. if i + 1 \<le> j \<and> j < n - 1 then j + 1 else (a(i := i + 1)) j)"
      by (rule 1 [OF True])
    also have "\<dots> = (\<lambda>j. if i \<le> j \<and> j < n - 1 then j + 1 else a j)"
      using True by (auto simp: fun_eq_iff)
    finally show ?thesis .
  next
    case False
    then show ?thesis
      by (subst list_new_fill.simps) (auto simp: fun_eq_iff)
  qed
qed

lemma seg_upto:
  "i \<le> m \<Longrightarrow> a p = i \<Longrightarrow> \<forall>j. i \<le> j \<and> j < m \<longrightarrow> a j = j + 1 \<Longrightarrow> a m = q \<Longrightarrow>
   seg a p [i..m] q"
proof (induction "nat (m - i)" arbitrary: i p)
  case 0
  then have "i = m" by simp
  with 0 show ?case by simp
next
  case (Suc k)
  then have lt: "i < m" by linarith
  then have u: "[i..m] = i # [i + 1..m]" by (simp add: upto_rec1)
  have "seg a i [i + 1..m] q"
  proof (rule Suc(1))
    show "k = nat (m - (i + 1))" using Suc(2) by linarith
    show "i + 1 \<le> m" using lt by simp
    show "a i = i + 1" using Suc.prems lt by simp
    show "\<forall>j. i + 1 \<le> j \<and> j < m \<longrightarrow> a j = j + 1" using Suc.prems by simp
    show "a m = q" by (rule Suc.prems)
  qed
  with Suc.prems u show ?case by simp
qed

lemma list_new_partitioned:
  assumes "1 \<le> n"
  shows "partitioned (list_new mem n) [] [0..n - 1]"
proof -
  let ?a = "array (list_new mem n)"
  have a: "?a = (\<lambda>j. if j = n + 1 then 0 else if j = n then LIST_END
                      else if j = n - 1 then LIST_END
                      else if 0 \<le> j \<and> j < n - 1 then j + 1 else mem j)"
    by (auto simp: list_new_def Let_def list_new_fill_eq fun_eq_iff)
  have "seg ?a (n + 1) [0..n - 1] LIST_END"
    by (rule seg_upto) (use assms in \<open>auto simp: a\<close>)
  moreover have "?a n = LIST_END" by (simp add: a)
  moreover have "set [0..n - 1] = {0..<n}" by auto
  moreover have "len (list_new mem n) = n" by (simp add: list_new_def Let_def)
  ultimately show ?thesis
    by (simp add: partitioned_def first_used_def first_empty_def)
qed

lemma insert_first_times_partitioned:
  "partitioned l us (es1 @ es2) \<Longrightarrow>
   fst (insert_first_times (length es1) l) = es1 \<and>
   partitioned (snd (insert_first_times (length es1) l)) (rev es1 @ us) es2"
proof (induction es1 arbitrary: l us)
  case Nil
  then show ?case by simp
next
  case (Cons e es1)
  from Cons.prems have P: "partitioned l ([] @ us) (e # es1 @ es2)" by simp
  have n: "first_used l = last (first_used l # [])" by simp
  from insert_at(1,2) [OF P n]
  have r: "fst (list_insert_first l) = e"
    and P1: "partitioned (snd (list_insert_first l)) (e # us) (es1 @ es2)"
    by (simp_all add: list_insert_first_node)
  from Cons.IH [OF P1] r show ?case
    by (simp add: split_beta Let_def)
qed

theorem list_operations_keep_partition_witness:
  "partition_inv (snd (insert_first_times 2 (list_new (\<lambda>i. 0) 4))) \<and>
   used_list (snd (insert_first_times 2 (list_new (\<lambda>i. 0) 4))) = Some [1, 0] \<and>
   empty_list (snd (insert_first_times 2 (list_new (\<lambda>i. 0) 4))) = Some [2, 3] \<and>
   keeps_partition (snd (insert_first_times 2 (list_new (\<lambda>i. 0) 4)))
     (snd (list_insert_first (snd (insert_first_times 2 (list_new (\<lambda>i. 0) 4))))) \<and>
   keeps_partition (snd (insert_first_times 2 (list_new (\<lambda>i. 0) 4)))
     (snd (list_remove_node (snd (insert_first_times 2 (list_new (\<lambda>i. 0) 4))) 1)) \<and>
   keeps_partition (snd (insert_first_times 2 (list_new (\<lambda>i. 0) 4)))
     (snd (list_insert_node (snd (insert_first_times 2 (list_new (\<lambda>i. 0) 4))) 0)) \<and>
   keeps_partition (snd (insert_first_times 2 (list_new (\<lambda>i. 0) 4)))
     (snd (list_remove_nth (snd (insert_first_times 2 (list_new (\<lambda>i. 0) 4))) 1)) \<and>
   lengths_sum (snd (insert_first_times 2 (list_new (\<lambda>i. 0) 4)))"
proof -
  let ?l = "snd (insert_first_times 2 (list_new (\<lambda>i. 0) 4))"
  have inv: "partition_inv ?l" by code_simp
  have u: "used_list ?l = Some [1, 0]" and e: "empty_list ?l = Some [2, 3]"
    by code_simp+
  have c1: "cursor ?l 1 \<and> array ?l 1 \<noteq> LIST_END" by code_simp
  have c0: "cursor ?l 0" by code_simp
  from list_operations_keep_partition [OF inv] c1 c0
  have "keeps_partition ?l (snd (list_insert_first ?l))"
    and "keeps_partition ?l (snd (list_remove_node ?l 1))"
    and "keeps_partition ?l (snd (list_insert_node ?l 0))"
    and "keeps_partition ?l (snd (list_remove_nth ?l 1))"
    and "lengths_sum ?l"
    by blast+
  with inv u e show ?thesis by blast
qed

text \<open>
  Claim C6, as amended. On the list that \<^verbatim>\<open>list_new\<close> builds for a capacity \<open>n \<ge> 1\<close>, the first
  \<open>n\<close> calls of \<^verbatim>\<open>list_insert_first\<close> return \<open>0, 1, ..., n - 1\<close> in that order, the
  next call returns \<^verbatim>\<open>LIST_ERR_FULL\<close>, and after the \<open>n\<close> calls the traversal of the
  used list from its head yields \<open>n - 1, ..., 1, 0\<close> (and the empty list is empty). The
  witness is the case \<open>n = 4\<close>: the calls return \<open>0, 1, 2, 3\<close> and the traversal yields
  \<open>3, 2, 1, 0\<close>.
\<close>

theorem insert_first_returns_in_order:
  assumes "1 \<le> n"
  shows "fst (insert_first_times (nat n) (list_new mem n)) = [0..n - 1] \<and>
         fst (list_insert_first (snd (insert_first_times (nat n) (list_new mem n))))
           = LIST_ERR_FULL \<and>
         used_list (snd (insert_first_times (nat n) (list_new mem n))) = Some (rev [0..n - 1]) \<and>
         empty_list (snd (insert_first_times (nat n) (list_new mem n))) = Some []"
proof -
  let ?l = "list_new mem n"
  have P: "partitioned ?l [] ([0..n - 1] @ [])"
    using list_new_partitioned [OF assms, of mem] by simp
  have len: "length [0..n - 1] = nat n" using assms by simp
  from insert_first_times_partitioned [OF P]
  have r: "fst (insert_first_times (nat n) ?l) = [0..n - 1]"
    and P': "partitioned (snd (insert_first_times (nat n) ?l)) (rev [0..n - 1]) []"
    by (simp_all add: len)
  from r full_unchanged(1) [OF P'] partitioned_walks [OF P'] show ?thesis by simp
qed

theorem insert_first_returns_in_order_witness:
  "fst (insert_first_times 4 (list_new (\<lambda>i. 0) 4)) = [0, 1, 2, 3] \<and>
   fst (list_insert_first (snd (insert_first_times 4 (list_new (\<lambda>i. 0) 4)))) = LIST_ERR_FULL \<and>
   used_list (snd (insert_first_times 4 (list_new (\<lambda>i. 0) 4))) = Some [3, 2, 1, 0] \<and>
   empty_list (snd (insert_first_times 4 (list_new (\<lambda>i. 0) 4))) = Some []"
proof -
  have h: "(1::int) \<le> 4" by simp
  have u: "[0..4 - 1] = [0, 1, 2, 3::int]" by code_simp
  have n: "nat 4 = 4" by simp
  from insert_first_returns_in_order [OF h, of "\<lambda>i. 0"] show ?thesis
    by (simp only: u n rev.simps append.simps)
qed

text \<open>
  Claim C6 as the specification states it, for every capacity, does not hold of the
  capacity \<open>0\<close>: \<^verbatim>\<open>list_new(0)\<close> leaves \<open>0\<close> in the head cell of the empty list,
  and the first call of \<^verbatim>\<open>list_insert_first\<close> returns the index \<open>0\<close> where the claim
  has it signal that the list is full.
\<close>

theorem capacity_zero_counterexample:
  "fst (insert_first_times 0 (list_new (int_mem quiet_host) 0)) = [] \<and>
   fst (list_insert_first (snd (insert_first_times 0 (list_new (int_mem quiet_host) 0)))) = 0 \<and>
   fst (list_insert_first (snd (insert_first_times 0 (list_new (int_mem quiet_host) 0))))
     \<noteq> LIST_ERR_FULL"
  by (simp add: list_new_def list_insert_first_def list_new_fill.simps first_empty_def
        first_used_def LIST_END_def LIST_ERR_FULL_def Let_def quiet_host_def)

section \<open>Properties of the renderer\<close>

subsection \<open>The cursor step\<close>

lemma cursor_wrap_pos:
  "0 < d \<Longrightarrow> cursor_wrap d I R = Some (if R < d then (I, R) else (I + R div d, R mod d))"
proof (induction "nat R" arbitrary: I R rule: less_induct)
  case less
  show ?case
  proof (cases "R < d")
    case True
    then show ?thesis by (subst cursor_wrap.simps) simp
  next
    case False
    with less.prems have m: "nat (R - d) < nat R" by linarith
    have "cursor_wrap d I R = cursor_wrap d (I + 1) (R - d)"
      using False by (subst cursor_wrap.simps) simp
    also have "\<dots> = Some (if R - d < d then (I + 1, R - d)
                          else (I + 1 + (R - d) div d, (R - d) mod d))"
      by (rule less.hyps [OF m less.prems])
    also have "\<dots> = Some (I + R div d, R mod d)"
    proof (cases "R - d < d")
      case True
      with False less.prems have "R div d = 1" "R mod d = R - d"
        by (auto simp: div_pos_pos_trivial mod_pos_pos_trivial
            intro!: int_div_pos_eq [where r = "R - d"] int_mod_pos_eq [where q = 1])
      with True show ?thesis by simp
    next
      case False
      have "(R - d) div d = R div d - 1"
        using div_add_self2 [of d "R - d"] less.prems by simp
      moreover have "(R - d) mod d = R mod d" by simp
      ultimately show ?thesis using False by simp
    qed
    finally show ?thesis using False by simp
  qed
qed

lemma cursor_wrap_stuck:
  assumes "cursor_wrap d I R = Some y"
  shows "0 < d \<or> R < d"
proof (rule cursor_wrap.raw_induct [where P = "\<lambda>d I R y. 0 < d \<or> R < d", OF _ assms])
  fix f :: "int \<Rightarrow> int \<Rightarrow> int \<Rightarrow> (int \<times> int) option" and d I R y
  assume IH: "\<And>d I R y. f d I R = Some y \<Longrightarrow> 0 < d \<or> R < d"
    and step: "(if d \<le> R then f d (I + 1) (R - d) else Some (I, R)) = Some y"
  show "0 < d \<or> R < d"
  proof (cases "d \<le> R")
    case True
    with step have "f d (I + 1) (R - d) = Some y" by simp
    from IH [OF this] show ?thesis by linarith
  next
    case False
    then show ?thesis by simp
  qed
qed

lemma cursor_wrap_never:
  "d \<le> 0 \<Longrightarrow> d \<le> R \<Longrightarrow> cursor_wrap d I R = None"
  using cursor_wrap_stuck [of d I R] by (cases "cursor_wrap d I R") auto

lemma grain_advance_pos:
  assumes "0 < d"
  shows "grain_advance sl el d g =
           Some (g\<lparr>src_I := fst (if src_R g + sl < d then (src_I g, src_R g + sl)
                                 else (src_I g + (src_R g + sl) div d, (src_R g + sl) mod d)),
                    src_R := snd (if src_R g + sl < d then (src_I g, src_R g + sl)
                                 else (src_I g + (src_R g + sl) div d, (src_R g + sl) mod d)),
                    env_I := fst (if env_R g + el < d then (env_I g, env_R g + el)
                                 else (env_I g + (env_R g + el) div d, (env_R g + el) mod d)),
                    env_R := snd (if env_R g + el < d then (env_I g, env_R g + el)
                                 else (env_I g + (env_R g + el) div d, (env_R g + el) mod d)),
                    out_cntd := out_cntd g - 1\<rparr>)"
  by (simp add: grain_advance_def cursor_wrap_pos [OF assms])

lemma grain_advance_never:
  assumes "d \<le> 0" and "d \<le> env_R g + el"
  shows "grain_advance sl el d g = None"
proof (cases "cursor_wrap d (src_I g) (src_R g + sl)")
  case None
  then show ?thesis by (simp add: grain_advance_def)
next
  case (Some a)
  with cursor_wrap_never [OF assms] show ?thesis
    by (simp add: grain_advance_def split_beta)
qed

lemma grain_write_never:
  assumes "d \<le> 0" and "d \<le> env_R g + el" and "n \<noteq> 0" and "out_cntd g \<noteq> 0"
  shows "grain_write mult sl d el iol seeder n p out reads g = None"
  using assms(3,4) grain_advance_never [OF assms(1,2)]
  by (subst grain_write.simps) simp

lemma grain_write_stop:
  "n = 0 \<or> out_cntd g = 0 \<Longrightarrow>
   grain_write mult sl d el iol seeder n p out reads g = Some (g, out, reads)"
  by (subst grain_write.simps) auto

lemma grain_write_step:
  assumes "0 < d" and "n \<noteq> 0" and "out_cntd g \<noteq> 0"
  shows "grain_write mult sl d el iol seeder n p out reads g =
           grain_write mult sl d el iol seeder (n - 1) (p + 1)
             (out(p := out p + grain_sample mult iol seeder g))
             (reads @ [env_I g, env_I g + 1])
             (the (grain_advance sl el d g))"
  using assms(2,3) grain_advance_pos [OF assms(1), of sl el g]
  by (subst grain_write.simps) simp

lemma grain_advance_fields:
  assumes "0 < d"
  shows "out_cntd (the (grain_advance sl el d g)) = out_cntd g - 1"
    and "g_out_len (the (grain_advance sl el d g)) = g_out_len g"
    and "g_src_len (the (grain_advance sl el d g)) = g_src_len g"
    and "out_begin (the (grain_advance sl el d g)) = out_begin g"
    and "src_R g = 0 \<Longrightarrow> sl = d \<Longrightarrow> src_I (the (grain_advance sl el d g)) = src_I g + 1"
    and "src_R g = 0 \<Longrightarrow> sl = d \<Longrightarrow> src_R (the (grain_advance sl el d g)) = 0"
  using assms by (simp_all add: grain_advance_pos)

lemma grain_advance_env:
  assumes d: "0 < d" and el: "0 \<le> el" and r: "0 \<le> env_R g"
  shows "env_I (the (grain_advance sl el d g)) * d + env_R (the (grain_advance sl el d g))
           = env_I g * d + env_R g + el"
    and "0 \<le> env_R (the (grain_advance sl el d g))"
    and "env_R (the (grain_advance sl el d g)) < d"
proof -
  let ?R = "env_R g + el"
  have e: "env_I (the (grain_advance sl el d g)) = env_I g + ?R div d"
          "env_R (the (grain_advance sl el d g)) = ?R mod d"
    using d el r by (simp_all add: grain_advance_pos div_pos_pos_trivial mod_pos_pos_trivial)
  have "(env_I g + ?R div d) * d + ?R mod d = env_I g * d + (?R div d * d + ?R mod d)"
    by (simp add: algebra_simps)
  also have "\<dots> = env_I g * d + ?R" by simp
  finally show "env_I (the (grain_advance sl el d g)) * d + env_R (the (grain_advance sl el d g))
           = env_I g * d + env_R g + el"
    by (simp add: e)
  show "0 \<le> env_R (the (grain_advance sl el d g))" using d by (simp add: e)
  show "env_R (the (grain_advance sl el d g)) < d" using d by (simp add: e)
qed

lemma grain_write_countdown:
  assumes d: "0 < d"
  shows "0 \<le> n \<Longrightarrow> 0 \<le> out_cntd g \<Longrightarrow>
    \<exists>g' out' reads'.
       grain_write mult sl d el iol seeder n p out reads g = Some (g', out', reads') \<and>
       out_cntd g' = out_cntd g - min n (out_cntd g) \<and>
       g_out_len g' = g_out_len g \<and> g_src_len g' = g_src_len g \<and>
       out_begin g' = out_begin g \<and>
       (src_R g = 0 \<and> sl = d \<longrightarrow>
          src_I g' = src_I g + min n (out_cntd g) \<and> src_R g' = 0)"
proof (induction "nat n" arbitrary: n p out reads g)
  case 0
  then have "n = 0" "0 \<le> out_cntd g" by simp_all
  then show ?case by (simp add: grain_write_stop)
next
  case (Suc k)
  then have n: "n \<noteq> 0" "0 \<le> n - 1" "k = nat (n - 1)" by auto
  show ?case
  proof (cases "out_cntd g = 0")
    case True
    with Suc.prems show ?thesis by (simp add: grain_write_stop)
  next
    case False
    let ?g1 = "the (grain_advance sl el d g)"
    from False Suc.prems have c: "0 \<le> out_cntd ?g1"
      by (simp add: grain_advance_fields [OF d])
    from Suc.hyps(1) [OF n(3) n(2) c]
    obtain g' out' reads' where
      run: "grain_write mult sl d el iol seeder (n - 1) (p + 1)
              (out(p := out p + grain_sample mult iol seeder g))
              (reads @ [env_I g, env_I g + 1]) ?g1 = Some (g', out', reads')"
      and r: "out_cntd g' = out_cntd ?g1 - min (n - 1) (out_cntd ?g1)"
         "g_out_len g' = g_out_len ?g1" "g_src_len g' = g_src_len ?g1"
         "out_begin g' = out_begin ?g1"
         "src_R ?g1 = 0 \<and> sl = d \<longrightarrow>
            src_I g' = src_I ?g1 + min (n - 1) (out_cntd ?g1) \<and> src_R g' = 0"
      by blast
    have "grain_write mult sl d el iol seeder n p out reads g = Some (g', out', reads')"
      using run by (simp add: grain_write_step [OF d n(1) False])
    moreover have "out_cntd g' = out_cntd g - min n (out_cntd g)"
      using r(1) by (simp add: grain_advance_fields [OF d] min_def)
    moreover have "src_R g = 0 \<and> sl = d \<longrightarrow>
          src_I g' = src_I g + min n (out_cntd g) \<and> src_R g' = 0"
      using r(5) by (auto simp: grain_advance_fields [OF d] min_def)
    ultimately show ?thesis
      using r(2,3,4) by (simp add: grain_advance_fields [OF d])
  qed
qed

lemma env_cursor_end:
  fixes d :: int
  assumes "0 < d" and "I * d + R = el * d" and "0 \<le> R" and "R < d"
  shows "I = el \<and> R = 0"
proof -
  have "R = (el - I) * d" using assms(2) by (simp add: algebra_simps)
  then have "R mod d = 0" by simp
  with assms(1,3,4) have "R = 0" by (simp add: mod_pos_pos_trivial)
  with assms(1,2) show ?thesis by simp
qed

lemma grain_write_last_read:
  assumes d: "0 < d" and el: "0 \<le> el"
  shows "env_I g * d + env_R g = el * j \<Longrightarrow> 0 \<le> env_R g \<Longrightarrow> env_R g < d \<Longrightarrow>
     out_cntd g = d + 1 - j \<Longrightarrow> j \<le> d \<Longrightarrow> d + 1 - j \<le> n \<Longrightarrow>
     \<exists>g' out' reads'.
        grain_write mult sl d el iol seeder n p out reads g = Some (g', out', reads') \<and>
        out_cntd g' = 0 \<and> reads' \<noteq> [] \<and> last reads' = el + 1"
proof (induction "nat (d - j)" arbitrary: j n p out reads g)
  case 0
  then have j: "j = d" by simp
  with 0 d have e: "env_I g = el \<and> env_R g = 0"
    by (intro env_cursor_end [of d]) simp_all
  from 0 j have c: "out_cntd g = 1" and n: "n \<noteq> 0" by auto
  let ?g1 = "the (grain_advance sl el d g)"
  have "out_cntd ?g1 = 0" using c by (simp add: grain_advance_fields [OF d])
  then have "grain_write mult sl d el iol seeder n p out reads g
               = Some (?g1, out(p := out p + grain_sample mult iol seeder g),
                       reads @ [env_I g, env_I g + 1])"
    using c n by (simp add: grain_write_step [OF d] grain_write_stop)
  with e \<open>out_cntd ?g1 = 0\<close> show ?case by simp
next
  case (Suc k)
  then have lt: "j < d" by linarith
  with Suc.prems have c: "out_cntd g \<noteq> 0" and n: "n \<noteq> 0" by auto
  let ?g1 = "the (grain_advance sl el d g)"
  have "\<exists>g' out' reads'.
        grain_write mult sl d el iol seeder (n - 1) (p + 1)
          (out(p := out p + grain_sample mult iol seeder g))
          (reads @ [env_I g, env_I g + 1]) ?g1 = Some (g', out', reads') \<and>
        out_cntd g' = 0 \<and> reads' \<noteq> [] \<and> last reads' = el + 1"
  proof (rule Suc.hyps(1) [where j = "j + 1"])
    show "k = nat (d - (j + 1))" using Suc.hyps(2) by linarith
    show "env_I ?g1 * d + env_R ?g1 = el * (j + 1)"
      using grain_advance_env(1) [OF d el Suc.prems(2), of sl] Suc.prems(1)
      by (simp add: algebra_simps)
    show "0 \<le> env_R ?g1" by (rule grain_advance_env(2) [OF d el Suc.prems(2)])
    show "env_R ?g1 < d" by (rule grain_advance_env(3) [OF d el Suc.prems(2)])
    show "out_cntd ?g1 = d + 1 - (j + 1)"
      using Suc.prems(4) by (simp add: grain_advance_fields [OF d])
    show "j + 1 \<le> d" using lt by simp
    show "d + 1 - (j + 1) \<le> n - 1" using Suc.prems(6) by simp
  qed
  then show ?case by (simp add: grain_write_step [OF d n c])
qed

subsection \<open>A grain from its spawn to its last sample\<close>

lemma add_grain_fs_room:
  assumes room: "grains_cnt x \<noteq> grains_max x"
  shows "\<exists>slot x'. granular_add_grain_fs x seeder src_offset out_offset = (Some slot, x') \<and>
           slot = fst (list_insert_first (grains_list x)) \<and>
           grains_list x' = snd (list_insert_first (grains_list x)) \<and>
           grains_cnt x' = grains_cnt x + 1 \<and>
           seeders_arr x' = seeders_arr x \<and> env_n_frm x' = env_n_frm x \<and>
           master x' = master x \<and>
           out_cntd (grains_arr x' slot) = out_len seeder \<and>
           g_out_len (grains_arr x' slot) = out_len seeder \<and>
           g_src_len (grains_arr x' slot) = src_len seeder \<and>
           g_index (grains_arr x' slot) = index seeder \<and>
           out_begin (grains_arr x' slot) = out_offset \<and>
           src_I (grains_arr x' slot) = 0 \<and> src_R (grains_arr x' slot) = 0 \<and>
           env_I (grains_arr x' slot) = 0 \<and> env_R (grains_arr x' slot) = 0"
  using room by (simp add: granular_add_grain_fs_def Let_def split_beta)

lemma list_insert_first_head:
  assumes "array l (first_empty l) \<noteq> LIST_END"
  shows "array (snd (list_insert_first l)) (first_used (snd (list_insert_first l)))
           = fst (list_insert_first l)"
    and "fst (list_insert_first l) \<noteq> LIST_END"
  using assms by (simp_all add: list_insert_first_def Let_def first_used_def)

text \<open>
  A grain of output length \<open>L \<ge> 2\<close> is counted down by one per rendered sample and
  never below zero: one pass over a block renders \<open>min n c\<close> samples, for \<open>n\<close> the
  samples left in the block and \<open>c\<close> the countdown.
\<close>

lemma grain_render_counts_down:
  assumes L: "2 \<le> g_out_len grain" and c: "0 \<le> out_cntd grain"
    and ob: "out_begin grain \<le> sampleframes"
  shows "\<exists>grain' out' reads.
           grain_render x sampleframes out grain = Some (grain', out', reads) \<and>
           out_cntd grain' = out_cntd grain - min (sampleframes - out_begin grain) (out_cntd grain) \<and>
           0 \<le> out_cntd grain' \<and> g_out_len grain' = g_out_len grain \<and> out_begin grain' = 0"
proof -
  have d: "0 < g_out_len grain - 1" using L by simp
  have n: "0 \<le> sampleframes - out_begin grain" using ob by simp
  from grain_write_countdown [OF d n c, of "master x * g_ampl grain" "g_src_len grain - 1"
      "env_n_frm x - 1" "1 / real_of_int (g_out_len grain - 1)" "seeders_arr x (g_index grain)"
      "out_begin grain" out "[]"]
  obtain g' out' reads' where
    run: "grain_write (master x * g_ampl grain) (g_src_len grain - 1) (g_out_len grain - 1)
            (env_n_frm x - 1) (1 / real_of_int (g_out_len grain - 1))
            (seeders_arr x (g_index grain))
            (sampleframes - out_begin grain) (out_begin grain) out [] grain
          = Some (g', out', reads')"
    and r: "out_cntd g' = out_cntd grain - min (sampleframes - out_begin grain) (out_cntd grain)"
       "g_out_len g' = g_out_len grain"
    by blast
  have "grain_render x sampleframes out grain = Some (g'\<lparr>out_begin := 0\<rparr>, out', reads')"
    using run by (simp add: grain_render_def Let_def)
  with r c show ?thesis by (simp add: min_def)
qed

text \<open>
  Claim C5 does not hold of the code for \<open>L = 1\<close>. A grain spawned by
  \<^verbatim>\<open>granular_add_grain_fs\<close> from a seeder of output length \<open>1\<close> has the countdown
  \<open>1\<close>; the local \<^verbatim>\<open>out_len\<close> of the render pass is \<open>0\<close>, the cursor step
  \<^verbatim>\<open>while (grain->env_R >= out_len) { grain->env_R -= out_len; grain->env_I++; }\<close>
  never exits on the first sample, and neither the pass over the grain nor the grain
  loop of the block returns: the grain is never counted down and never retired.
\<close>

theorem unit_grain_never_finishes:
  assumes L: "out_len seeder = 1"
    and room: "grains_cnt x \<noteq> grains_max x"
    and free: "array (grains_list x) (first_empty (grains_list x)) \<noteq> LIST_END"
    and env: "1 \<le> env_n_frm x"
    and off: "out_offset < sampleframes"
  shows "\<exists>slot x'.
           granular_add_grain_fs x seeder src_offset out_offset = (Some slot, x') \<and>
           g_out_len (grains_arr x' slot) = 1 \<and> out_cntd (grains_arr x' slot) = 1 \<and>
           grain_render x' sampleframes out (grains_arr x' slot) = None \<and>
           grain_loop sampleframes (first_used (grains_list x')) x' out = None"
proof -
  from add_grain_fs_room [OF room, of seeder src_offset out_offset]
  obtain slot x' where
    add: "granular_add_grain_fs x seeder src_offset out_offset = (Some slot, x')"
    and slot: "slot = fst (list_insert_first (grains_list x))"
    and gl: "grains_list x' = snd (list_insert_first (grains_list x))"
    and f: "env_n_frm x' = env_n_frm x" "out_cntd (grains_arr x' slot) = out_len seeder"
       "g_out_len (grains_arr x' slot) = out_len seeder"
       "out_begin (grains_arr x' slot) = out_offset" "env_R (grains_arr x' slot) = 0"
    by blast
  let ?g = "grains_arr x' slot"
  have "grain_write (master x' * g_ampl ?g) (g_src_len ?g - 1) (g_out_len ?g - 1)
          (env_n_frm x' - 1) (1 / real_of_int (g_out_len ?g - 1))
          (seeders_arr x' (g_index ?g)) (sampleframes - out_begin ?g) (out_begin ?g) out [] ?g
        = None"
    by (rule grain_write_never) (use L env off f in simp_all)
  then have render: "grain_render x' sampleframes out ?g = None"
    by (simp add: grain_render_def Let_def)
  have head: "array (grains_list x') (first_used (grains_list x')) = slot" "slot \<noteq> LIST_END"
    using list_insert_first_head [OF free] by (simp_all add: gl slot)
  have "grain_loop sampleframes (first_used (grains_list x')) x' out = None"
    using head render by (subst grain_loop.simps) simp
  with add render f L show ?thesis by simp
qed

lemmas example_defs = small_engine_def engine_def granular_new_def quiet_host_def args_of_def
  c_trunc32_id int32_of_id is_int32_def
  seeder_init_def zero_seeder_def zero_grain_def Let_def c_trunc_def int16_of_def
  ENV_N_SMP_def POLY_MAX_def BUFF_NO_LINK_def SEEDERS_MAX_def GRAINS_MAX_def

theorem unit_grain_never_finishes_witness:
  "\<exists>slot x'.
     granular_add_grain_fs
       (granular_length small_engine 2 (args_of [A_LONG 0, A_FLOAT (3/100)]))
       (seeders_arr (granular_length small_engine 2 (args_of [A_LONG 0, A_FLOAT (3/100)])) 0)
       0 0 = (Some slot, x') \<and>
     g_out_len (grains_arr x' slot) = 1 \<and> out_cntd (grains_arr x' slot) = 1 \<and>
     grain_render x' 64 (\<lambda>i. 0) (grains_arr x' slot) = None \<and>
     grain_loop 64 (first_used (grains_list x')) x' (\<lambda>i. 0) = None"
proof -
  let ?x = "granular_length small_engine 2 (args_of [A_LONG 0, A_FLOAT (3/100)])"
  have L: "out_len (seeders_arr ?x 0) = 1"
    by (simp add: granular_length_def example_defs)
  have room: "grains_cnt ?x \<noteq> grains_max ?x"
    by (simp add: granular_length_def example_defs)
  have free: "array (grains_list ?x) (first_empty (grains_list ?x)) \<noteq> LIST_END"
    by (simp add: granular_length_def example_defs list_new_def first_empty_def LIST_END_def)
  have env: "1 \<le> env_n_frm ?x"
    by (simp add: granular_length_def example_defs)
  have off: "(0::int) < 64" by simp
  show ?thesis
    by (rule unit_grain_never_finishes [OF L room free env off])
qed

text \<open>
  Claim C8. For a grain whose source length equals its output length \<open>L \<ge> 2\<close> and
  whose source remainder is \<open>0\<close> (as after the spawn): the advance step of a sample
  moves the source index by exactly \<open>1\<close> and leaves the remainder \<open>0\<close>; and the pass
  over a block returns with the remainder \<open>0\<close> and the index advanced by the number of
  samples rendered, which is the number by which the countdown went down. The grain
  after the pass meets the hypotheses again, so this holds for each of the \<open>L\<close>
  samples however they are split over blocks.
\<close>

theorem pitch_neutral_cursor:
  assumes L: "2 \<le> g_out_len grain" and eq: "g_src_len grain = g_out_len grain"
    and r0: "src_R grain = 0" and c: "0 \<le> out_cntd grain"
    and ob: "out_begin grain \<le> sampleframes"
  shows "(\<exists>g1. grain_advance (g_src_len grain - 1) (env_n_frm x - 1) (g_out_len grain - 1) grain
                 = Some g1 \<and>
               src_I g1 = src_I grain + 1 \<and> src_R g1 = 0) \<and>
         (\<exists>grain' out' reads.
            grain_render x sampleframes out grain = Some (grain', out', reads) \<and>
            src_R grain' = 0 \<and>
            src_I grain' = src_I grain + min (sampleframes - out_begin grain) (out_cntd grain) \<and>
            out_cntd grain' = out_cntd grain - min (sampleframes - out_begin grain) (out_cntd grain) \<and>
            g_src_len grain' = g_src_len grain \<and> g_out_len grain' = g_out_len grain \<and>
            out_begin grain' = 0)"
proof -
  let ?d = "g_out_len grain - 1"
  have d: "0 < ?d" using L by simp
  have sl: "g_src_len grain - 1 = ?d" using eq by simp
  have step: "\<exists>g1. grain_advance (g_src_len grain - 1) (env_n_frm x - 1) ?d grain = Some g1 \<and>
               src_I g1 = src_I grain + 1 \<and> src_R g1 = 0"
    using d r0 by (simp add: sl grain_advance_pos)
  have n: "0 \<le> sampleframes - out_begin grain" using ob by simp
  from grain_write_countdown [OF d n c, of "master x * g_ampl grain" "g_src_len grain - 1"
      "env_n_frm x - 1" "1 / real_of_int ?d" "seeders_arr x (g_index grain)"
      "out_begin grain" out "[]"]
  obtain g' out' reads' where
    run: "grain_write (master x * g_ampl grain) (g_src_len grain - 1) ?d (env_n_frm x - 1)
            (1 / real_of_int ?d) (seeders_arr x (g_index grain))
            (sampleframes - out_begin grain) (out_begin grain) out [] grain
          = Some (g', out', reads')"
    and r: "out_cntd g' = out_cntd grain - min (sampleframes - out_begin grain) (out_cntd grain)"
       "g_out_len g' = g_out_len grain" "g_src_len g' = g_src_len grain"
       "src_I g' = src_I grain + min (sampleframes - out_begin grain) (out_cntd grain)"
       "src_R g' = 0"
    using r0 sl by auto
  have "grain_render x sampleframes out grain = Some (g'\<lparr>out_begin := 0\<rparr>, out', reads')"
    using run by (simp add: grain_render_def Let_def)
  with r step show ?thesis by simp
qed

theorem pitch_neutral_cursor_witness:
  "(\<exists>g1. grain_advance 2 999 2 (zero_grain\<lparr>g_src_len := 3, g_out_len := 3, out_cntd := 3\<rparr>)
            = Some g1 \<and> src_I g1 = 1 \<and> src_R g1 = 0) \<and>
   (\<exists>grain' out' reads.
      grain_render small_engine 2 (\<lambda>i. 0)
        (zero_grain\<lparr>g_src_len := 3, g_out_len := 3, out_cntd := 3\<rparr>)
        = Some (grain', out', reads) \<and>
      src_R grain' = 0 \<and> src_I grain' = 2 \<and> out_cntd grain' = 1)"
proof -
  let ?g = "zero_grain\<lparr>g_src_len := 3, g_out_len := 3, out_cntd := 3\<rparr>"
  have h: "2 \<le> g_out_len ?g" "g_src_len ?g = g_out_len ?g" "src_R ?g = 0"
    "0 \<le> out_cntd ?g" "out_begin ?g \<le> 2"
    by (simp_all add: zero_grain_def)
  have e: "env_n_frm small_engine - 1 = 999"
    by (simp add: example_defs)
  from pitch_neutral_cursor [OF h, of small_engine "\<lambda>i. 0"]
  obtain g1 grain' out' reads where
    "grain_advance (g_src_len ?g - 1) (env_n_frm small_engine - 1) (g_out_len ?g - 1) ?g = Some g1"
    "src_I g1 = src_I ?g + 1" "src_R g1 = 0"
    "grain_render small_engine 2 (\<lambda>i. 0) ?g = Some (grain', out', reads)"
    "src_R grain' = 0" "src_I grain' = src_I ?g + min (2 - out_begin ?g) (out_cntd ?g)"
    "out_cntd grain' = out_cntd ?g - min (2 - out_begin ?g) (out_cntd ?g)"
    by blast
  then have "grain_advance 2 999 2 ?g = Some g1 \<and> src_I g1 = 1 \<and> src_R g1 = 0"
    and "grain_render small_engine 2 (\<lambda>i. 0) ?g = Some (grain', out', reads) \<and>
         src_R grain' = 0 \<and> src_I grain' = 2 \<and> out_cntd grain' = 1"
    by (simp_all add: e zero_grain_def)
  then show ?thesis by blast
qed

text \<open>
  Claim C10 does not hold of the code. A grain of output length \<open>L \<ge> 2\<close> that is
  rendered to its end reads, on its last sample, the envelope table at \<open>env_I = env_n_frm - 1\<close>
  and at the neighbour \<open>env_I + 1 = env_n_frm\<close>, one cell past the table: the checked
  lookup of that offset is \<open>None\<close>. (Stated for a grain that ends in the block it is
  spawned in; the witness is a grain of length \<open>2\<close> and the offset \<open>1000\<close>.)
\<close>

theorem last_sample_reads_past_envelope:
  assumes L: "2 \<le> out_len seeder"
    and room: "grains_cnt x \<noteq> grains_max x"
    and env: "1 \<le> env_n_frm x"
    and fit: "out_offset + out_len seeder \<le> sampleframes"
  shows "\<exists>slot x' grain' out' reads.
           granular_add_grain_fs x seeder src_offset out_offset = (Some slot, x') \<and>
           env_n_frm x' = env_n_frm x \<and>
           grain_render x' sampleframes out (grains_arr x' slot) = Some (grain', out', reads) \<and>
           out_cntd grain' = 0 \<and> reads \<noteq> [] \<and> last reads = env_n_frm x' \<and>
           env_lookup x' (seeders_arr x' (g_index (grains_arr x' slot))) (last reads) = None"
proof -
  from add_grain_fs_room [OF room, of seeder src_offset out_offset]
  obtain slot x' where
    add: "granular_add_grain_fs x seeder src_offset out_offset = (Some slot, x')"
    and f: "env_n_frm x' = env_n_frm x" "out_cntd (grains_arr x' slot) = out_len seeder"
       "g_out_len (grains_arr x' slot) = out_len seeder"
       "out_begin (grains_arr x' slot) = out_offset"
       "env_I (grains_arr x' slot) = 0" "env_R (grains_arr x' slot) = 0"
    by blast
  let ?g = "grains_arr x' slot"
  let ?d = "g_out_len ?g - 1" and ?el = "env_n_frm x' - 1"
  have d: "0 < ?d" and el: "0 \<le> ?el" using L env f by simp_all
  have "\<exists>g' out' reads'.
        grain_write (master x' * g_ampl ?g) (g_src_len ?g - 1) ?d ?el (1 / real_of_int ?d)
          (seeders_arr x' (g_index ?g)) (sampleframes - out_begin ?g) (out_begin ?g) out [] ?g
          = Some (g', out', reads') \<and>
        out_cntd g' = 0 \<and> reads' \<noteq> [] \<and> last reads' = ?el + 1"
    by (rule grain_write_last_read [OF d el, where j = 0]) (use f L fit in simp_all)
  then obtain g' out' reads' where
    run: "grain_write (master x' * g_ampl ?g) (g_src_len ?g - 1) ?d ?el (1 / real_of_int ?d)
          (seeders_arr x' (g_index ?g)) (sampleframes - out_begin ?g) (out_begin ?g) out [] ?g
          = Some (g', out', reads')"
    and r: "out_cntd g' = 0" "reads' \<noteq> []" "last reads' = ?el + 1"
    by blast
  have "grain_render x' sampleframes out ?g = Some (g'\<lparr>out_begin := 0\<rparr>, out', reads')"
    using run by (simp add: grain_render_def Let_def)
  moreover have "env_lookup x' (seeders_arr x' (g_index ?g)) (last reads') = None"
    using r by (simp add: env_lookup_def)
  ultimately show ?thesis using add f(1) r by simp
qed

theorem last_sample_reads_past_envelope_witness:
  "\<exists>slot x' grain' out' reads.
     granular_add_grain_fs
       (granular_length small_engine 2 (args_of [A_LONG 0, A_FLOAT (1/20)]))
       (seeders_arr (granular_length small_engine 2 (args_of [A_LONG 0, A_FLOAT (1/20)])) 0)
       0 0 = (Some slot, x') \<and>
     grain_render x' 64 (\<lambda>i. 0) (grains_arr x' slot) = Some (grain', out', reads) \<and>
     out_cntd grain' = 0 \<and> last reads = 1000 \<and>
     env_lookup x' (seeders_arr x' (g_index (grains_arr x' slot))) 1000 = None"
proof -
  let ?x = "granular_length small_engine 2 (args_of [A_LONG 0, A_FLOAT (1/20)])"
  have L: "out_len (seeders_arr ?x 0) = 2"
    by (simp add: granular_length_def example_defs)
  have L2: "2 \<le> out_len (seeders_arr ?x 0)" using L by simp
  have room: "grains_cnt ?x \<noteq> grains_max ?x"
    by (simp add: granular_length_def example_defs)
  have e: "env_n_frm ?x = 1000"
    by (simp add: granular_length_def example_defs)
  have env: "1 \<le> env_n_frm ?x" by (simp add: e)
  have fit: "0 + out_len (seeders_arr ?x 0) \<le> 64" using L by simp
  from last_sample_reads_past_envelope [OF L2 room env fit, of 0 "\<lambda>i. 0"]
  show ?thesis by (auto simp: e)
qed
section \<open>The scheduler\<close>

subsection \<open>One turn of a stream's loop\<close>

lemma next_period_det:
  "period_rand s = 0 \<Longrightarrow> is_int32 (period_len s) \<Longrightarrow> next_period s r = period_len s"
  by (simp add: next_period_def c_trunc32_of_int)

lemma seeder_advance_fields:
  "period_cntd (seeder_advance msr r s)
     = (period_cntd s)(0 := int32_of (period_cntd s 0 + next_period s r))"
  "period_len (seeder_advance msr r s) = period_len s"
  "period_rand (seeder_advance msr r s) = period_rand s"
  "is_on (seeder_advance msr r s) = is_on s"
  "poly_cnt (seeder_advance msr r s) = poly_cnt s"
  "out_len (seeder_advance msr r s) = out_len s"
  "src_len (seeder_advance msr r s) = src_len s"
  "index (seeder_advance msr r s) = index s"
  "speed (seeder_advance msr r s) = speed s"
  "buff_msr (seeder_advance msr r s) = buff_msr s"
  "buff_n_frm (seeder_advance msr r s) = buff_n_frm s"
  by (simp_all add: seeder_advance_def Let_def)

lemma add_grain_fs_frame:
  "seeders_arr (snd (granular_add_grain_fs x s so oo)) = seeders_arr x"
  "msamplerate (snd (granular_add_grain_fs x s so oo)) = msamplerate x"
  "rand_seq (snd (granular_add_grain_fs x s so oo)) = rand_seq x"
  "grains_max (snd (granular_add_grain_fs x s so oo)) = grains_max x"
  "env_n_frm (snd (granular_add_grain_fs x s so oo)) = env_n_frm x"
  "seeders_list (snd (granular_add_grain_fs x s so oo)) = seeders_list x"
  "seeders_max (snd (granular_add_grain_fs x s so oo)) = seeders_max x"
  by (simp_all add: granular_add_grain_fs_def my_err_def Let_def split_beta)

lemma add_grain_fs_full:
  assumes "grains_cnt x = grains_max x"
  shows "granular_add_grain_fs x s so oo
           = (None, my_err x ''Impossible to add grain:  Maximum number already reached.'')"
    and "grains_cnt (snd (granular_add_grain_fs x s so oo)) = grains_cnt x"
    and "grains_arr (snd (granular_add_grain_fs x s so oo)) = grains_arr x"
    and "grains_list (snd (granular_add_grain_fs x s so oo)) = grains_list x"
  using assms by (simp_all add: granular_add_grain_fs_def my_err_def)

lemma main_stream_step_fields:
  "seeders_arr (main_stream_step i x)
     = (seeders_arr x)(i := seeder_advance (msamplerate x) (rand_seq x 0) (seeders_arr x i))"
  "msamplerate (main_stream_step i x) = msamplerate x"
  "grains_max (main_stream_step i x) = grains_max x"
  "grains_cnt (main_stream_step i x)
     = grains_cnt (snd (granular_add_grain_fs x (seeders_arr x i) 0 (period_cntd (seeders_arr x i) 0)))"
  "grains_arr (main_stream_step i x)
     = grains_arr (snd (granular_add_grain_fs x (seeders_arr x i) 0 (period_cntd (seeders_arr x i) 0)))"
  "grains_list (main_stream_step i x)
     = grains_list (snd (granular_add_grain_fs x (seeders_arr x i) 0 (period_cntd (seeders_arr x i) 0)))"
  by (simp_all add: main_stream_step_def c_rand_def Let_def split_beta add_grain_fs_frame)

lemma poly_stream_step_fields:
  "seeders_arr (poly_stream_step i k x)
     = (seeders_arr x)(i := (seeders_arr x i)\<lparr>period_cntd :=
          (period_cntd (seeders_arr x i))
            (k := int32_of (period_cntd (seeders_arr x i) k
                             + next_period (seeders_arr x i) (rand_seq x 0)))\<rparr>)"
  "msamplerate (poly_stream_step i k x) = msamplerate x"
  "grains_max (poly_stream_step i k x) = grains_max x"
  by (simp_all add: poly_stream_step_def c_rand_def Let_def split_beta add_grain_fs_frame)

lemma turns_step:
  fixes S c P :: int
  assumes "0 < P"
  shows "\<lceil>real_of_int (S - (c + P)) / real_of_int P\<rceil>
           = \<lceil>real_of_int (S - c) / real_of_int P\<rceil> - 1"
proof -
  have "real_of_int (S - (c + P)) / real_of_int P = real_of_int (S - c) / real_of_int P - 1"
    using assms by (simp add: field_simps)
  then show ?thesis by simp
qed

lemma turns_pos:
  fixes S c P :: int
  assumes "0 < P"
  shows "0 < \<lceil>real_of_int (S - c) / real_of_int P\<rceil> \<longleftrightarrow> c < S"
proof -
  have "0 < \<lceil>real_of_int (S - c) / real_of_int P\<rceil>
          \<longleftrightarrow> 0 < real_of_int (S - c) / real_of_int P"
    by linarith
  also have "\<dots> \<longleftrightarrow> c < S" using assms by (simp add: zero_less_divide_iff)
  finally show ?thesis .
qed

text \<open>
  The loop of the main stream, for a seeder without randomization and with a period of at
  least one sample, when the countdown does not leave the range of \<^verbatim>\<open>t_int32\<close>: it makes
  \<open>k\<close> turns, and the turn \<open>j\<close> starts with the countdown \<open>c + j * P\<close>.
\<close>

lemma main_stream_steps_seeder:
  assumes "period_rand (seeders_arr x i) = 0" and "0 \<le> period_len (seeders_arr x i)"
    and "is_int32 (period_len (seeders_arr x i))"
    and "is_int32 (period_cntd (seeders_arr x i) 0)"
    and "period_cntd (seeders_arr x i) 0 + int k * period_len (seeders_arr x i) \<le> 2147483647"
  shows "period_cntd (seeders_arr ((main_stream_step i ^^ k) x) i) 0
           = period_cntd (seeders_arr x i) 0 + int k * period_len (seeders_arr x i) \<and>
         period_rand (seeders_arr ((main_stream_step i ^^ k) x) i) = 0 \<and>
         period_len (seeders_arr ((main_stream_step i ^^ k) x) i) = period_len (seeders_arr x i) \<and>
         poly_cnt (seeders_arr ((main_stream_step i ^^ k) x) i) = poly_cnt (seeders_arr x i) \<and>
         is_on (seeders_arr ((main_stream_step i ^^ k) x) i) = is_on (seeders_arr x i) \<and>
         grains_max ((main_stream_step i ^^ k) x) = grains_max x"
  using assms
proof (induction k)
  case 0
  then show ?case by simp
next
  case (Suc k)
  let ?y = "(main_stream_step i ^^ k) x"
  let ?c = "period_cntd (seeders_arr x i) 0" and ?P = "period_len (seeders_arr x i)"
  have b: "?c + int k * ?P \<le> 2147483647"
  proof -
    have "?c + int k * ?P \<le> ?c + int (Suc k) * ?P" using Suc.prems(2) by (simp add: algebra_simps)
    with Suc.prems(5) show ?thesis by linarith
  qed
  from Suc.IH [OF Suc.prems(1-4) b]
  have ih: "period_cntd (seeders_arr ?y i) 0 = ?c + int k * ?P"
    "period_rand (seeders_arr ?y i) = 0" "period_len (seeders_arr ?y i) = ?P"
    "poly_cnt (seeders_arr ?y i) = poly_cnt (seeders_arr x i)"
    "is_on (seeders_arr ?y i) = is_on (seeders_arr x i)" "grains_max ?y = grains_max x"
    by simp_all
  have np: "next_period (seeders_arr ?y i) r = ?P" for r
    using next_period_det [of "seeders_arr ?y i" r] Suc.prems(3) by (simp add: ih)
  have lo: "- 2147483648 \<le> ?c + int k * ?P + ?P"
  proof -
    have "0 \<le> int k * ?P" using Suc.prems(2) by simp
    moreover have "- 2147483648 \<le> ?c" using Suc.prems(4) by (simp add: is_int32_def)
    ultimately show ?thesis using Suc.prems(2) by linarith
  qed
  have hi: "?c + int k * ?P + ?P \<le> 2147483647"
    using Suc.prems(5) by (simp add: algebra_simps)
  have w: "int32_of (?c + int k * ?P + ?P) = ?c + int k * ?P + ?P"
    using lo hi by (intro int32_of_id) (simp add: is_int32_def)
  have "period_cntd (seeders_arr (main_stream_step i ?y) i) 0 = ?c + int k * ?P + ?P"
    by (simp add: main_stream_step_fields seeder_advance_fields ih np w)
  then have "period_cntd (seeders_arr (main_stream_step i ?y) i) 0 = ?c + int (Suc k) * ?P"
    by (simp add: algebra_simps)
  then show ?case
    by (simp add: main_stream_step_fields seeder_advance_fields ih del: of_nat_Suc)
qed

lemma main_stream_runs:
  assumes rand: "period_rand (seeders_arr x i) = 0" and P: "1 \<le> period_len (seeders_arr x i)"
    and P32: "is_int32 (period_len (seeders_arr x i))"
    and c32: "is_int32 (period_cntd (seeders_arr x i) 0)"
    and k: "int k = max 0 \<lceil>real_of_int (S - period_cntd (seeders_arr x i) 0)
                          / real_of_int (period_len (seeders_arr x i))\<rceil>"
    and b: "period_cntd (seeders_arr x i) 0 + int k * period_len (seeders_arr x i) \<le> 2147483647"
  shows "main_stream S i x = Some ((main_stream_step i ^^ k) x)"
  using assms
proof (induction k arbitrary: x)
  case 0
  let ?s = "seeders_arr x i"
  have "\<not> 0 < \<lceil>real_of_int (S - period_cntd ?s 0) / real_of_int (period_len ?s)\<rceil>"
    using "0.prems"(5) by linarith
  then have "\<not> period_cntd ?s 0 < S" using turns_pos [of "period_len ?s"] "0.prems"(2) by simp
  then show ?case by (subst main_stream.simps) simp
next
  case (Suc k)
  let ?s = "seeders_arr x i"
  let ?c = "period_cntd ?s 0" and ?P = "period_len ?s"
  let ?x1 = "main_stream_step i x"
  let ?s1 = "seeders_arr ?x1 i"
  have P: "0 < ?P" "0 \<le> ?P" using Suc.prems by simp_all
  have t: "\<lceil>real_of_int (S - ?c) / real_of_int ?P\<rceil> = int k + 1"
    using Suc.prems(5) by linarith
  then have lt: "?c < S" using turns_pos [OF P(1), of S ?c] by simp
  have b1: "?c + int 1 * ?P \<le> 2147483647"
  proof -
    have "0 \<le> int k * ?P" using P by simp
    with Suc.prems(6) show ?thesis by (simp add: algebra_simps)
  qed
  from main_stream_steps_seeder [OF Suc.prems(1) P(2) Suc.prems(3,4) b1]
  have s1: "period_cntd ?s1 0 = ?c + ?P" "period_rand ?s1 = 0" "period_len ?s1 = ?P"
    by simp_all
  have k': "int k = max 0 \<lceil>real_of_int (S - period_cntd ?s1 0) / real_of_int (period_len ?s1)\<rceil>"
    unfolding s1 turns_step [OF P(1)] t by simp
  have c1: "is_int32 (period_cntd ?s1 0)"
    using Suc.prems(4) b1 P by (simp add: s1 is_int32_def)
  have b': "period_cntd ?s1 0 + int k * period_len ?s1 \<le> 2147483647"
    using Suc.prems(6) by (simp add: s1 algebra_simps)
  have "main_stream S i ?x1 = Some ((main_stream_step i ^^ k) ?x1)"
    using s1 Suc.prems(2,3) k' c1 b' by (intro Suc.IH) simp_all
  moreover have "main_stream S i x = main_stream S i ?x1"
    using lt by (subst main_stream.simps) simp
  ultimately show ?case by (simp add: funpow_swap1)
qed

text \<open>One turn with room in the pool, and \<open>k\<close> turns with room for \<open>k\<close>.\<close>

lemma main_stream_step_room:
  assumes P: "partitioned (grains_list x) us (e # es)" and room: "grains_cnt x \<noteq> grains_max x"
  shows "partitioned (grains_list (main_stream_step i x)) (e # us) es"
    and "grains_cnt (main_stream_step i x) = grains_cnt x + 1"
    and "out_begin (grains_arr (main_stream_step i x) e) = period_cntd (seeders_arr x i) 0"
    and "n \<noteq> e \<Longrightarrow> grains_arr (main_stream_step i x) n = grains_arr x n"
proof -
  let ?l = "grains_list x"
  have P': "partitioned ?l ([] @ us) (e # es)" using P by simp
  have f: "fst (list_insert_first ?l) = e"
    using insert_at(1) [OF P', of "first_used ?l"] by (simp add: list_insert_first_node)
  have p: "partitioned (snd (list_insert_first ?l)) (e # us) es"
    using insert_at(2) [OF P', of "first_used ?l"] by (simp add: list_insert_first_node)
  show "partitioned (grains_list (main_stream_step i x)) (e # us) es"
    using room p
    by (simp add: main_stream_step_fields granular_add_grain_fs_def Let_def split_beta)
  show "grains_cnt (main_stream_step i x) = grains_cnt x + 1"
    using room
    by (simp add: main_stream_step_fields granular_add_grain_fs_def Let_def split_beta)
  show "out_begin (grains_arr (main_stream_step i x) e) = period_cntd (seeders_arr x i) 0"
    using room f
    by (simp add: main_stream_step_fields granular_add_grain_fs_def Let_def split_beta)
  show "n \<noteq> e \<Longrightarrow> grains_arr (main_stream_step i x) n = grains_arr x n"
    using room f
    by (simp add: main_stream_step_fields granular_add_grain_fs_def Let_def split_beta)
qed

lemma main_stream_steps_room:
  assumes "partitioned (grains_list x) us (es1 @ es2)"
    and "grains_cnt x + int (length es1) \<le> grains_max x"
    and "period_rand (seeders_arr x i) = 0" and "0 \<le> period_len (seeders_arr x i)"
    and "is_int32 (period_len (seeders_arr x i))"
    and "is_int32 (period_cntd (seeders_arr x i) 0)"
    and "period_cntd (seeders_arr x i) 0 + int (length es1) * period_len (seeders_arr x i)
           \<le> 2147483647"
  shows "partitioned (grains_list ((main_stream_step i ^^ length es1) x)) (rev es1 @ us) es2 \<and>
         grains_cnt ((main_stream_step i ^^ length es1) x) = grains_cnt x + int (length es1) \<and>
         (\<forall>j < length es1. out_begin (grains_arr ((main_stream_step i ^^ length es1) x) (es1 ! j))
              = period_cntd (seeders_arr x i) 0 + int j * period_len (seeders_arr x i)) \<and>
         (\<forall>n. n \<notin> set es1 \<longrightarrow>
              grains_arr ((main_stream_step i ^^ length es1) x) n = grains_arr x n)"
  using assms
proof (induction es1 arbitrary: x us)
  case Nil
  then show ?case by simp
next
  case (Cons e es1)
  let ?x1 = "main_stream_step i x"
  let ?c = "period_cntd (seeders_arr x i) 0" and ?P = "period_len (seeders_arr x i)"
  let ?y = "(main_stream_step i ^^ length es1) ?x1"
  have P: "partitioned (grains_list x) us (e # (es1 @ es2))" using Cons.prems(1) by simp
  have room: "grains_cnt x \<noteq> grains_max x" using Cons.prems(2) by simp
  note st = main_stream_step_room [OF P room, where i = i]
  have b1: "?c + int 1 * ?P \<le> 2147483647"
  proof -
    have "0 \<le> int (length es1) * ?P" using Cons.prems(4) by simp
    with Cons.prems(7) show ?thesis by (simp add: algebra_simps)
  qed
  from main_stream_steps_seeder [OF Cons.prems(3-6) b1]
  have s1: "period_cntd (seeders_arr ?x1 i) 0 = ?c + ?P" "period_rand (seeders_arr ?x1 i) = 0"
    "period_len (seeders_arr ?x1 i) = ?P" "grains_max ?x1 = grains_max x"
    by simp_all
  have r1: "grains_cnt ?x1 + int (length es1) \<le> grains_max ?x1"
    using Cons.prems(2) by (simp add: st(2) s1)
  have c1: "is_int32 (period_cntd (seeders_arr ?x1 i) 0)"
    using Cons.prems(4,6) b1 by (simp add: s1 is_int32_def)
  have b': "period_cntd (seeders_arr ?x1 i) 0 + int (length es1) * period_len (seeders_arr ?x1 i)
              \<le> 2147483647"
    using Cons.prems(7) by (simp add: s1 algebra_simps)
  have p1: "0 \<le> period_len (seeders_arr ?x1 i)" "is_int32 (period_len (seeders_arr ?x1 i))"
    using Cons.prems(4,5) by (simp_all add: s1)
  from Cons.IH [OF st(1) r1 s1(2) p1 c1 b']
  have ih: "partitioned (grains_list ?y) (rev es1 @ e # us) es2"
    "grains_cnt ?y = grains_cnt ?x1 + int (length es1)"
    "\<And>j. j < length es1 \<Longrightarrow> out_begin (grains_arr ?y (es1 ! j))
              = period_cntd (seeders_arr ?x1 i) 0 + int j * period_len (seeders_arr ?x1 i)"
    "\<And>n. n \<notin> set es1 \<Longrightarrow> grains_arr ?y n = grains_arr ?x1 n"
    by simp_all
  have e: "e \<notin> set es1" using partitioned_cells(1) [OF P] by auto
  have y: "(main_stream_step i ^^ length (e # es1)) x = ?y" by (simp add: funpow_swap1)
  have ob: "out_begin (grains_arr ?y ((e # es1) ! j)) = ?c + int j * ?P"
    if "j < length (e # es1)" for j
  proof (cases j)
    case 0
    then show ?thesis using ih(4) [OF e] st(3) by simp
  next
    case (Suc j')
    then show ?thesis using ih(3) [of j'] that by (simp add: s1 algebra_simps)
  qed
  have fr: "grains_arr ?y n = grains_arr x n" if "n \<notin> set (e # es1)" for n
    using that ih(4) [of n] st(4) [where n = n] by simp
  show ?case unfolding y using ih(1,2) ob fr by (simp add: st(2))
qed


text \<open>
  The streams after the first one, for a seeder without randomization and with a period
  of at least one sample, when \<open>S + P\<close> is in the range of \<^verbatim>\<open>t_int32\<close>: each loop
  returns, and the seeder keeps every field but the countdowns of the streams \<open>k \<ge> 1\<close>.
\<close>

lemma int32_of_range: "is_int32 (int32_of v)"
proof -
  have "0 \<le> (v + 2147483648) mod 4294967296" "(v + 2147483648) mod 4294967296 < 4294967296"
    by simp_all
  then show ?thesis unfolding int32_of_def is_int32_def by linarith
qed

lemma poly_turn_up:
  assumes "d < S" and "1 \<le> P" and "S + P \<le> 2147483647"
  shows "d < int32_of (d + P)"
proof (cases "is_int32 d")
  case True
  with assms have "is_int32 (d + P)" by (simp add: is_int32_def)
  then have "int32_of (d + P) = d + P" by (rule int32_of_id)
  with assms(2) show ?thesis by simp
next
  case False
  with assms have "d < - 2147483648" by (simp add: is_int32_def)
  moreover have "- 2147483648 \<le> int32_of (d + P)"
    using int32_of_range [of "d + P"] by (simp add: is_int32_def)
  ultimately show ?thesis by linarith
qed

lemma poly_stream_returns:
  assumes "period_rand (seeders_arr x i) = 0" and "1 \<le> period_len (seeders_arr x i)"
    and "is_int32 (period_len (seeders_arr x i))"
    and "S + period_len (seeders_arr x i) \<le> 2147483647"
  shows "\<exists>x' v. poly_stream S i k x = Some x' \<and>
           seeders_arr x' i = (seeders_arr x i)\<lparr>period_cntd := (period_cntd (seeders_arr x i))(k := v)\<rparr>"
  using assms
proof (induction "nat (S - period_cntd (seeders_arr x i) k)" arbitrary: x rule: less_induct)
  case less
  let ?s = "seeders_arr x i"
  show ?case
  proof (cases "period_cntd ?s k < S")
    case False
    have "?s = ?s\<lparr>period_cntd := (period_cntd ?s)(k := period_cntd ?s k)\<rparr>" by simp
    moreover have "poly_stream S i k x = Some x"
      using False by (subst poly_stream.simps) simp
    ultimately show ?thesis by blast
  next
    case True
    let ?x1 = "poly_stream_step i k x"
    let ?v = "int32_of (period_cntd ?s k + period_len ?s)"
    have s1: "seeders_arr ?x1 i = ?s\<lparr>period_cntd := (period_cntd ?s)(k := ?v)\<rparr>"
      using less.prems by (simp add: poly_stream_step_fields next_period_det)
    have up: "period_cntd ?s k < ?v"
      using True less.prems(2,4) by (rule poly_turn_up)
    have m: "nat (S - period_cntd (seeders_arr ?x1 i) k) < nat (S - period_cntd ?s k)"
      using True up by (simp add: s1)
    from less.hyps [OF m] less.prems
    obtain x' v where r: "poly_stream S i k ?x1 = Some x'"
      "seeders_arr x' i = (seeders_arr ?x1 i)\<lparr>period_cntd := (period_cntd (seeders_arr ?x1 i))(k := v)\<rparr>"
      by (auto simp: s1)
    have "poly_stream S i k x = Some x'"
      using True r(1) by (subst poly_stream.simps) simp
    moreover have "seeders_arr x' i = ?s\<lparr>period_cntd := (period_cntd ?s)(k := v)\<rparr>"
      using r(2) by (simp add: s1)
    ultimately show ?thesis by blast
  qed
qed

lemma poly_streams_return:
  assumes "period_rand (seeders_arr x i) = 0" and "1 \<le> period_len (seeders_arr x i)"
    and "is_int32 (period_len (seeders_arr x i))"
    and "poly_cnt (seeders_arr x i) \<le> 1 \<or> S + period_len (seeders_arr x i) \<le> 2147483647"
    and "1 \<le> k"
  shows "\<exists>x' f. poly_streams S i k x = Some x' \<and>
           seeders_arr x' i = (seeders_arr x i)\<lparr>period_cntd := f\<rparr> \<and>
           f 0 = period_cntd (seeders_arr x i) 0"
  using assms
proof (induction "nat (poly_cnt (seeders_arr x i) - k)" arbitrary: x k rule: less_induct)
  case less
  let ?s = "seeders_arr x i"
  show ?case
  proof (cases "k < poly_cnt ?s")
    case False
    have "?s = ?s\<lparr>period_cntd := period_cntd ?s\<rparr>" by simp
    moreover have "poly_streams S i k x = Some x"
      using False by (subst poly_streams.simps) simp
    ultimately show ?thesis by blast
  next
    case True
    with less.prems(4,5) have b: "S + period_len ?s \<le> 2147483647" by simp
    from poly_stream_returns [OF less.prems(1-3) b, of k]
    obtain x1 v where x1: "poly_stream S i k x = Some x1"
      "seeders_arr x1 i = ?s\<lparr>period_cntd := (period_cntd ?s)(k := v)\<rparr>"
      by blast
    let ?x2 = "cntd_next_cycle S i k x1"
    have s2: "seeders_arr ?x2 i = ?s\<lparr>period_cntd := (period_cntd ?s)(k := int32_of (v - S))\<rparr>"
      by (simp add: cntd_next_cycle_def Let_def x1(2))
    have m: "nat (poly_cnt (seeders_arr ?x2 i) - (k + 1)) < nat (poly_cnt ?s - k)"
      using True by (simp add: s2)
    from less.hyps [OF m] less.prems
    obtain x' f where r: "poly_streams S i (k + 1) ?x2 = Some x'"
      "seeders_arr x' i = (seeders_arr ?x2 i)\<lparr>period_cntd := f\<rparr>"
      "f 0 = period_cntd (seeders_arr ?x2 i) 0"
      by (auto simp: s2)
    have "poly_streams S i k x = Some x'"
      using True x1(1) r(1) by (subst poly_streams.simps) simp
    moreover have "seeders_arr x' i = ?s\<lparr>period_cntd := f\<rparr>"
      using r(2) by (simp add: s2)
    moreover have "f 0 = period_cntd ?s 0"
      using r(3) less.prems(5) by (simp add: s2)
    ultimately show ?thesis by blast
  qed
qed

lemma seeder_cycle_countdown:
  assumes on: "is_on (seeders_arr x i)"
    and rand: "period_rand (seeders_arr x i) = 0" and P: "1 \<le> period_len (seeders_arr x i)"
    and P32: "is_int32 (period_len (seeders_arr x i))"
    and c32: "is_int32 (period_cntd (seeders_arr x i) 0)"
    and S: "0 \<le> S"
    and k: "int k = max 0 \<lceil>real_of_int (S - period_cntd (seeders_arr x i) 0)
                          / real_of_int (period_len (seeders_arr x i))\<rceil>"
    and b: "period_cntd (seeders_arr x i) 0 + int k * period_len (seeders_arr x i) \<le> 2147483647"
    and poly: "poly_cnt (seeders_arr x i) \<le> 1
               \<or> S + period_len (seeders_arr x i) \<le> 2147483647"
  shows "\<exists>x2. seeder_cycle S i x = Some x2 \<and>
           period_cntd (seeders_arr x2 i) 0
             = period_cntd (seeders_arr x i) 0 + int k * period_len (seeders_arr x i) - S"
proof -
  let ?x1 = "(main_stream_step i ^^ k) x"
  let ?c = "period_cntd (seeders_arr x i) 0" and ?P = "period_len (seeders_arr x i)"
  have P0: "0 \<le> ?P" "0 < ?P" using P by simp_all
  have m: "main_stream S i x = Some ?x1" by (rule main_stream_runs [OF rand P P32 c32 k b])
  from main_stream_steps_seeder [OF rand P0(1) P32 c32 b]
  have s1: "period_cntd (seeders_arr ?x1 i) 0 = ?c + int k * ?P"
    "period_rand (seeders_arr ?x1 i) = 0" "period_len (seeders_arr ?x1 i) = ?P"
    "poly_cnt (seeders_arr ?x1 i) = poly_cnt (seeders_arr x i)"
    by simp_all
  have h: "1 \<le> period_len (seeders_arr ?x1 i)" "is_int32 (period_len (seeders_arr ?x1 i))"
    "poly_cnt (seeders_arr ?x1 i) \<le> 1 \<or> S + period_len (seeders_arr ?x1 i) \<le> 2147483647"
    using P P32 poly by (simp_all add: s1)
  from poly_streams_return [OF s1(2) h, of 1]
  obtain x' f where r: "poly_streams S i 1 ?x1 = Some x'"
    "seeders_arr x' i = (seeders_arr ?x1 i)\<lparr>period_cntd := f\<rparr>"
    "f 0 = period_cntd (seeders_arr ?x1 i) 0"
    by auto
  text \<open>The loop has left the countdown at \<open>S\<close> or above.\<close>
  have ge: "S \<le> ?c + int k * ?P"
  proof (cases "?c < S")
    case False
    moreover have "0 \<le> int k * ?P" using P0 by simp
    ultimately show ?thesis by linarith
  next
    case True
    then have "0 < \<lceil>real_of_int (S - ?c) / real_of_int ?P\<rceil>" using turns_pos [OF P0(2)] by simp
    with k have e: "int k = \<lceil>real_of_int (S - ?c) / real_of_int ?P\<rceil>" by simp
    have "real_of_int (S - ?c) / real_of_int ?P \<le> real_of_int (int k)"
      unfolding e by linarith
    then have "real_of_int (S - ?c) \<le> real_of_int (int k) * real_of_int ?P"
      using P0(2) by (simp add: field_simps)
    then have "S - ?c \<le> int k * ?P" by (metis of_int_le_iff of_int_mult)
    then show ?thesis by simp
  qed
  have "is_int32 (?c + int k * ?P - S)"
    using ge b S by (simp add: is_int32_def)
  then have w: "int32_of (?c + int k * ?P - S) = ?c + int k * ?P - S" by (rule int32_of_id)
  have "seeder_cycle S i x = Some (cntd_next_cycle S i 0 x')"
    using on m r(1) by (simp add: seeder_cycle_def)
  moreover have "period_cntd (seeders_arr (cntd_next_cycle S i 0 x') i) 0 = ?c + int k * ?P - S"
    by (simp add: cntd_next_cycle_def Let_def r(2,3) s1 w)
  ultimately show ?thesis by blast
qed


subsection \<open>The worked example\<close>

text \<open>The fields of the engines \<open>engine g\<close> and \<open>playing g\<close> that the instances below need.\<close>

lemma engine_fields:
  "msamplerate (engine g) = 441 / 10"
  "seeders_max (engine g) = 2"
  "poly_max (engine g) = POLY_MAX"
  "grains_max (engine g) = int16_of g"
  "grains_cnt (engine g) = 0"
  "grains_list (engine g) = list_new (\<lambda>i. 0) (int16_of g)"
  "seeders_list (engine g) = list_new (\<lambda>i. 0) 2"
  "grains_arr (engine g) = (\<lambda>i. zero_grain)"
  "env_n_frm (engine g) = 1000"
  "rand_seq (engine g) = (\<lambda>k. 0)"
  by (simp_all add: engine_def granular_new_def quiet_host_def args_of_def Let_def
        int16_of_def ENV_N_SMP_def)

lemma engine_seeder0:
  "is_on (seeders_arr (engine g) 0) = False"
  "buff_msr (seeders_arr (engine g) 0) = 441 / 10"
  "period_cntd (seeders_arr (engine g) 0) = (\<lambda>i. 0)"
  "poly_cnt (seeders_arr (engine g) 0) = 1"
  "src_len_ms (seeders_arr (engine g) 0) = 100"
  "src_len (seeders_arr (engine g) 0) = 4410"
  "buff_n_frm (seeders_arr (engine g) 0) = 0"
  by (simp_all add: engine_def granular_new_def quiet_host_def args_of_def Let_def
        int16_of_def seeder_init_def zero_seeder_def
        c_trunc32_id is_int32_def c_trunc_def fun_eq_iff)


lemma buffer_found_frame:
  "msamplerate (granular_buffer_found x i smp n c m) = msamplerate x"
  "seeders_max (granular_buffer_found x i smp n c m) = seeders_max x"
  "poly_max (granular_buffer_found x i smp n c m) = poly_max x"
  "grains_max (granular_buffer_found x i smp n c m) = grains_max x"
  "grains_cnt (granular_buffer_found x i smp n c m) = grains_cnt x"
  "grains_list (granular_buffer_found x i smp n c m) = grains_list x"
  "grains_arr (granular_buffer_found x i smp n c m) = grains_arr x"
  "seeders_list (granular_buffer_found x i smp n c m) = seeders_list x"
  "env_n_frm (granular_buffer_found x i smp n c m) = env_n_frm x"
  "rand_seq (granular_buffer_found x i smp n c m) = rand_seq x"
  by (simp_all add: granular_buffer_found_def Let_def)

lemma buffer_found_seeder:
  "buff_n_frm (seeders_arr (granular_buffer_found x i smp n c m) i) = int32_of n"
  "buff_n_chn (seeders_arr (granular_buffer_found x i smp n c m) i) = int16_of c"
  "buff_msr (seeders_arr (granular_buffer_found x i smp n c m) i) = m"
  "src_len (seeders_arr (granular_buffer_found x i smp n c m) i)
     = c_trunc32 (src_len_ms (seeders_arr x i) * m)"
  "buff_state (seeders_arr (granular_buffer_found x i smp n c m) i)
     = (if int32_of n = 0 \<or> int16_of c = 0 \<or> m = 0 then BUFF_NO_FILE else BUFF_READY)"
  "is_on (seeders_arr (granular_buffer_found x i smp n c m) i) = is_on (seeders_arr x i)"
  "period_cntd (seeders_arr (granular_buffer_found x i smp n c m) i) = period_cntd (seeders_arr x i)"
  "poly_cnt (seeders_arr (granular_buffer_found x i smp n c m) i) = poly_cnt (seeders_arr x i)"
  by (simp_all add: granular_buffer_found_def Let_def)

lemma set_seeder_fields_proj:
  "period_len (set_seeder_fields x argv s)
     = c_trunc32 (atom_getfloat (argv 5)
         * real_of_int (c_trunc32 (atom_getfloat (argv 3) * exp (- LN2 * atom_getfloat (argv 4))
                                     * msamplerate x)))"
  "out_len (set_seeder_fields x argv s)
     = c_trunc32 (atom_getfloat (argv 3) * exp (- LN2 * atom_getfloat (argv 4)) * msamplerate x)"
  "period_rand (set_seeder_fields x argv s) = atom_getfloat (argv 7)"
  "poly_cnt (set_seeder_fields x argv s) = int16_of (atom_getlong (argv 8))"
  "src_len (set_seeder_fields x argv s) = c_trunc32 (atom_getfloat (argv 3) * buff_msr s)"
  "is_on (set_seeder_fields x argv s) = is_on s"
  "buff_state (set_seeder_fields x argv s) = buff_state s"
  "buff_n_frm (set_seeder_fields x argv s) = buff_n_frm s"
  "buff_msr (set_seeder_fields x argv s) = buff_msr s"
  "period_cntd (set_seeder_fields x argv s) = period_cntd s"
  by (simp_all add: set_seeder_fields_def Let_def)


lemma check_args_ok:
  assumes "argc = argc_exp" and "atom_is_long (argv 0)"
    and "0 \<le> int16_of (atom_getlong (argv 0))"
    and "int16_of (atom_getlong (argv 0)) < seeders_max x"
  shows "granular_check_args x method argc argv argc_exp = (int16_of (atom_getlong (argv 0)), x)"
  using assms by (simp add: granular_check_args_def Let_def)

lemma set_seeder_ok:
  assumes "atom_is_long (argv 0)" and "0 \<le> int16_of (atom_getlong (argv 0))"
    and "int16_of (atom_getlong (argv 0)) < seeders_max x"
    and "1 \<le> int16_of (atom_getlong (argv 8))"
    and "int16_of (atom_getlong (argv 8)) \<le> poly_max x"
  shows "granular_set_seeder x 9 argv =
     x\<lparr>seeders_arr := (seeders_arr x)
        (int16_of (atom_getlong (argv 0)) :=
           (set_seeder_fields x argv (seeders_arr x (int16_of (atom_getlong (argv 0)))))
             \<lparr>poly_cnt := int16_of (atom_getlong (argv 8)),
              period_cntd :=
                poly_fill (int16_of (atom_getlong (argv 8)))
                  (period_len (set_seeder_fields x argv
                                 (seeders_arr x (int16_of (atom_getlong (argv 0))))))
                  0 (period_cntd (seeders_arr x (int16_of (atom_getlong (argv 0)))))\<rparr>)\<rparr>"
proof -
  let ?i = "int16_of (atom_getlong (argv 0))"
  let ?s = "set_seeder_fields x argv (seeders_arr x ?i)"
  have c: "granular_check_args x ''set_seeder'' 9 argv 9 = (?i, x)"
    using assms(1-3) by (intro check_args_ok) simp_all
  have e: "?i \<noteq> ERR_ARG" using assms(2) by (simp add: ERR_ARG_def)
  have b: "\<not> (poly_cnt ?s < 1 \<or> poly_cnt ?s > poly_max x)"
    using assms(4,5) by (simp add: set_seeder_fields_proj)
  show ?thesis
    unfolding granular_set_seeder_def c
    using e b by (simp add: Let_def set_seeder_fields_proj)
qed

lemma seeder_on_ok:
  assumes "atom_is_long (argv 0)" and "0 \<le> int16_of (atom_getlong (argv 0))"
    and "int16_of (atom_getlong (argv 0)) < seeders_max x"
    and "\<not> is_on (seeders_arr x (int16_of (atom_getlong (argv 0))))"
    and "buff_state (seeders_arr x (int16_of (atom_getlong (argv 0)))) = BUFF_READY"
    and "list_insert_index (seeders_list x) (int16_of (atom_getlong (argv 0)))
           = Some (int16_of (atom_getlong (argv 0)), l')"
  shows "granular_seeder_on x 1 argv =
     Some (outlet_bang (x\<lparr>seeders_list := l', seeders_cnt := seeders_cnt x + 1,
        seeders_arr := (seeders_arr x)
          (int16_of (atom_getlong (argv 0)) :=
             (seeders_arr x (int16_of (atom_getlong (argv 0))))\<lparr>is_on := True\<rparr>)\<rparr>))"
proof -
  let ?i = "int16_of (atom_getlong (argv 0))"
  have c: "granular_check_args x ''seeder_on'' 1 argv 1 = (?i, x)"
    using assms(1-3) by (intro check_args_ok) simp_all
  have e: "?i \<noteq> ERR_ARG" "?i \<noteq> LIST_END"
    using assms(2) by (simp_all add: ERR_ARG_def LIST_END_def)
  show ?thesis
    unfolding granular_seeder_on_def c
    using e assms(4-6) by (simp add: Let_def BUFF_READY_def BUFF_NO_FILE_def)
qed


lemma poly_fill_one: "poly_fill 1 plen 0 c = c(0 := 0)"
  by (simp add: poly_fill.simps [of 1 plen 0] poly_fill.simps [of 1 plen 1] c_div_def
        int32_of_def)

lemma playing_fields:
  "is_on (seeders_arr (playing g) 0)"
  "period_rand (seeders_arr (playing g) 0) = 0"
  "period_len (seeders_arr (playing g) 0) = 10"
  "period_cntd (seeders_arr (playing g) 0) 0 = 0"
  "poly_cnt (seeders_arr (playing g) 0) = 1"
  "out_len (seeders_arr (playing g) 0) = 200"
  "grains_cnt (playing g) = 0"
  "grains_max (playing g) = int16_of g"
  "grains_list (playing g) = list_new (\<lambda>i. 0) (int16_of g)"
  "grains_arr (playing g) = (\<lambda>i. zero_grain)"
  "src_len (seeders_arr (playing g) 0) = 200"
  "buff_n_frm (seeders_arr (playing g) 0) = 44100"
  "buff_msr (seeders_arr (playing g) 0) = 441 / 10"
  "seeders_max (playing g) = 2"
proof -
  define av where "av = args_of [A_LONG 0, A_FLOAT 1, A_FLOAT 0, A_FLOAT (454 / 100), A_FLOAT 0,
                           A_FLOAT (5 / 100), A_FLOAT 1, A_FLOAT 0, A_LONG 1]"
  define x1 where "x1 = granular_buffer_found (engine g) 0 (\<lambda>i. 0) 44100 1 (441 / 10)"
  define x2 where "x2 = granular_set_seeder x1 9 av"
  define s2 where "s2 = set_seeder_fields x1 av (seeders_arr x1 0)"
  have av: "av 0 = A_LONG 0" "av 3 = A_FLOAT (454 / 100)" "av 4 = A_FLOAT 0"
    "av 5 = A_FLOAT (5 / 100)" "av 7 = A_FLOAT 0" "av 8 = A_LONG 1"
    by (simp_all add: av_def args_of_def)
  have x1: "seeders_max x1 = 2" "poly_max x1 = POLY_MAX" "msamplerate x1 = 441 / 10"
    "seeders_list x1 = list_new (\<lambda>i. 0) 2"
    by (simp_all add: x1_def buffer_found_frame engine_fields)
  have s1: "is_on (seeders_arr x1 0) = False" "buff_state (seeders_arr x1 0) = BUFF_READY"
    "buff_n_frm (seeders_arr x1 0) = 44100" "buff_msr (seeders_arr x1 0) = 441 / 10"
    by (simp_all add: x1_def buffer_found_seeder engine_seeder0 int32_of_def int16_of_def
          BUFF_READY_def BUFF_NO_FILE_def)
  have x2: "x2 = x1\<lparr>seeders_arr := (seeders_arr x1)
              (0 := s2\<lparr>poly_cnt := 1, period_cntd := (period_cntd (seeders_arr x1 0))(0 := 0)\<rparr>)\<rparr>"
    using set_seeder_ok [of av x1]
    by (simp add: x2_def s2_def av x1 int16_of_def POLY_MAX_def poly_fill_one)
  have s2: "period_len s2 = 10" "out_len s2 = 200" "period_rand s2 = 0"
    "is_on s2 = False" "buff_state s2 = BUFF_READY"
    "src_len s2 = 200" "buff_n_frm s2 = 44100" "buff_msr s2 = 441 / 10"
    by (simp_all add: s2_def set_seeder_fields_proj av x1 s1 c_trunc32_id is_int32_def
          c_trunc_def)
  have "partitioned (list_new (\<lambda>i. 0) 2) [] [0..2 - 1]"
    by (rule list_new_partitioned) simp
  then have "partitioned (seeders_list x2) [] ([] @ 0 # [1])"
    by (simp add: x2 x1 upto.simps)
  from insert_index_found [OF this]
  obtain l' where l': "list_insert_index (seeders_list x2) 0 = Some (0, l')" by blast
  have on: "granular_seeder_on x2 1 (args_of [A_LONG 0]) =
     Some (outlet_bang (x2\<lparr>seeders_list := l', seeders_cnt := seeders_cnt x2 + 1,
        seeders_arr := (seeders_arr x2)(0 := (seeders_arr x2 0)\<lparr>is_on := True\<rparr>)\<rparr>))"
    using seeder_on_ok [of "args_of [A_LONG 0]" x2 l'] l'
    by (simp add: args_of_def int16_of_def x2 x1 s2)
  have p: "playing g = outlet_bang (x2\<lparr>seeders_list := l', seeders_cnt := seeders_cnt x2 + 1,
        seeders_arr := (seeders_arr x2)(0 := (seeders_arr x2 0)\<lparr>is_on := True\<rparr>)\<rparr>)"
    unfolding playing_def Let_def
    by (simp only: av_def [symmetric] x1_def [symmetric] x2_def [symmetric] on option.case)
  show "is_on (seeders_arr (playing g) 0)"
    "period_rand (seeders_arr (playing g) 0) = 0"
    "period_len (seeders_arr (playing g) 0) = 10"
    "period_cntd (seeders_arr (playing g) 0) 0 = 0"
    "poly_cnt (seeders_arr (playing g) 0) = 1"
    "out_len (seeders_arr (playing g) 0) = 200"
    by (simp_all add: p outlet_bang_def x2 s2)
  show "grains_cnt (playing g) = 0"
    "grains_max (playing g) = int16_of g"
    "grains_list (playing g) = list_new (\<lambda>i. 0) (int16_of g)"
    "grains_arr (playing g) = (\<lambda>i. zero_grain)"
    by (simp_all add: p outlet_bang_def x2 x1_def buffer_found_frame engine_fields)
  show "src_len (seeders_arr (playing g) 0) = 200"
    "buff_n_frm (seeders_arr (playing g) 0) = 44100"
    "buff_msr (seeders_arr (playing g) 0) = 441 / 10"
    "seeders_max (playing g) = 2"
    by (simp_all add: p outlet_bang_def x2 s2 x1)
qed

subsection \<open>Spawning with a full pool, and on schedule\<close>

lemma main_stream_steps_full:
  assumes "grains_cnt x = grains_max x"
  shows "grains_cnt ((main_stream_step i ^^ n) x) = grains_cnt x \<and>
         grains_max ((main_stream_step i ^^ n) x) = grains_max x \<and>
         grains_list ((main_stream_step i ^^ n) x) = grains_list x \<and>
         grains_arr ((main_stream_step i ^^ n) x) = grains_arr x"
  using assms
  by (induction n) (simp_all add: main_stream_step_fields add_grain_fs_full my_err_def)

text \<open>
  Claim C9. With the pool at capacity (\<open>grains_cnt = grains_max\<close>)
  \<^verbatim>\<open>granular_add_grain_fs\<close> returns no grain and changes nothing but the console, to
  which it adds its error line; so a turn of the main stream's loop, and a turn of a poly
  stream's loop, leave the array of grains, the list of grains and the count as they were.
  The seeder after the turn is \<open>seeder_advance\<close> of the seeder before it, resp. the seeder
  with the countdown of stream \<open>k\<close> advanced by the period (a 32-bit sum): these
  equations do not depend on the pool, they hold after a successful spawn as well.
\<close>

theorem full_pool_drops_spawn:
  "(grains_cnt x = grains_max x \<longrightarrow>
      granular_add_grain_fs x seeder src_offset out_offset
        = (None, x\<lparr>console := console x
                     @ [''Impossible to add grain:  Maximum number already reached.'']\<rparr>) \<and>
      grains_arr (main_stream_step i x) = grains_arr x \<and>
      grains_list (main_stream_step i x) = grains_list x \<and>
      grains_cnt (main_stream_step i x) = grains_cnt x \<and>
      grains_arr (poly_stream_step i k x) = grains_arr x \<and>
      grains_list (poly_stream_step i k x) = grains_list x \<and>
      grains_cnt (poly_stream_step i k x) = grains_cnt x) \<and>
   seeders_arr (main_stream_step i x) i
     = seeder_advance (msamplerate x) (rand_seq x 0) (seeders_arr x i) \<and>
   period_cntd (seeders_arr (main_stream_step i x) i) 0
     = int32_of (period_cntd (seeders_arr x i) 0
                  + next_period (seeders_arr x i) (rand_seq x 0)) \<and>
   seeders_arr (poly_stream_step i k x) i
     = (seeders_arr x i)\<lparr>period_cntd := (period_cntd (seeders_arr x i))
          (k := int32_of (period_cntd (seeders_arr x i) k
                           + next_period (seeders_arr x i) (rand_seq x 0)))\<rparr>"
proof -
  have "grains_arr (poly_stream_step i k x) = grains_arr x \<and>
        grains_list (poly_stream_step i k x) = grains_list x \<and>
        grains_cnt (poly_stream_step i k x) = grains_cnt x"
    if "grains_cnt x = grains_max x"
    using that
    by (simp add: poly_stream_step_def c_rand_def Let_def split_beta add_grain_fs_full(2-4))
  moreover have "granular_add_grain_fs x seeder src_offset out_offset
        = (None, x\<lparr>console := console x
                     @ [''Impossible to add grain:  Maximum number already reached.'']\<rparr>)"
    if "grains_cnt x = grains_max x"
    using that by (simp add: granular_add_grain_fs_def my_err_def)
  ultimately show ?thesis
    by (simp add: main_stream_step_fields poly_stream_step_fields add_grain_fs_full(2-4)
          seeder_advance_fields)
qed

theorem full_pool_drops_spawn_witness:
  "grains_cnt (main_stream_step 0 (playing 1)) = 1 \<and>
   grains_max (main_stream_step 0 (playing 1)) = 1 \<and>
   fst (granular_add_grain_fs (main_stream_step 0 (playing 1))
          (seeders_arr (main_stream_step 0 (playing 1)) 0) 0 10) = None \<and>
   grains_arr (main_stream_step 0 (main_stream_step 0 (playing 1)))
     = grains_arr (main_stream_step 0 (playing 1)) \<and>
   grains_list (main_stream_step 0 (main_stream_step 0 (playing 1)))
     = grains_list (main_stream_step 0 (playing 1)) \<and>
   grains_cnt (main_stream_step 0 (main_stream_step 0 (playing 1))) = 1 \<and>
   period_cntd (seeders_arr (main_stream_step 0 (playing 1)) 0) 0 = 10 \<and>
   period_cntd (seeders_arr (main_stream_step 0 (main_stream_step 0 (playing 1))) 0) 0 = 20"
proof -
  let ?x = "main_stream_step 0 (playing 1)"
  have c: "grains_cnt ?x = 1" "grains_max ?x = 1"
    by (simp_all add: main_stream_step_fields granular_add_grain_fs_def playing_fields
          int16_of_def Let_def split_beta)
  have s: "period_cntd (seeders_arr ?x 0) 0 = 10" "period_len (seeders_arr ?x 0) = 10"
    "period_rand (seeders_arr ?x 0) = 0"
    by (simp_all add: main_stream_step_fields seeder_advance_fields next_period_det
          playing_fields is_int32_def int32_of_def)
  have full: "grains_cnt ?x = grains_max ?x" by (simp add: c)
  note t = full_pool_drops_spawn [of ?x "seeders_arr ?x 0" 0 10 0 1]
  note a = t [THEN conjunct1, THEN mp, OF full]
  have "fst (granular_add_grain_fs ?x (seeders_arr ?x 0) 0 10) = None"
    by (simp only: a [THEN conjunct1] fst_conv)
  moreover have "grains_arr (main_stream_step 0 ?x) = grains_arr ?x"
    and "grains_list (main_stream_step 0 ?x) = grains_list ?x"
    and "grains_cnt (main_stream_step 0 ?x) = grains_cnt ?x"
    using a by blast+
  moreover have "period_cntd (seeders_arr (main_stream_step 0 ?x) 0) 0
           = int32_of (period_cntd (seeders_arr ?x 0) 0
                        + next_period (seeders_arr ?x 0) (rand_seq ?x 0))"
    using t by blast
  ultimately show ?thesis by (simp add: c s next_period_det is_int32_def int32_of_def)
qed

text \<open>
  Claim C2, as amended. For a seeder that is on, with no randomization of the period, a
  period of \<open>P \<ge> 1\<close> samples, the countdown \<open>c\<close> of its main stream and a block of
  \<open>S \<ge> 0\<close> samples, let \<open>k = max 0 \<lceil>(S - c) / P\<rceil>\<close> and let \<open>c + k * P\<close> be in the
  range of \<^verbatim>\<open>t_int32\<close> (and, if the seeder has streams beside the main one, \<open>S + P\<close> as
  well). Then the loop of the main stream makes exactly \<open>k\<close> turns, each turn being one
  call of \<^verbatim>\<open>granular_add_grain_fs\<close> at the countdown it starts with, which for the turn
  \<open>j\<close> is \<open>c + j * P\<close>; the whole turn of the seeder loop for that seeder returns, and
  after it the countdown of the main stream is \<open>c + k * P - S\<close>. If moreover the pool of
  grains has \<open>k\<close> free slots, the slots \<open>es1\<close> at the head of its list of empty slots,
  then the main stream takes exactly these: after its loop the used slots are
  \<open>rev es1 @ us\<close>, the count has grown by \<open>k\<close>, the grain in the slot \<open>es1 ! j\<close> starts
  at the offset \<open>c + j * P\<close> of the block, and the grains that were there are untouched.
\<close>

theorem main_stream_spawns_on_schedule:
  assumes on: "is_on (seeders_arr x i)"
    and rand: "period_rand (seeders_arr x i) = 0"
    and P: "1 \<le> period_len (seeders_arr x i)" and P32: "is_int32 (period_len (seeders_arr x i))"
    and c32: "is_int32 (period_cntd (seeders_arr x i) 0)"
    and S: "0 \<le> S"
    and k: "int k = max 0 \<lceil>real_of_int (S - period_cntd (seeders_arr x i) 0)
                          / real_of_int (period_len (seeders_arr x i))\<rceil>"
    and b: "period_cntd (seeders_arr x i) 0 + int k * period_len (seeders_arr x i) \<le> 2147483647"
    and poly: "poly_cnt (seeders_arr x i) \<le> 1
               \<or> S + period_len (seeders_arr x i) \<le> 2147483647"
  shows "main_stream S i x = Some ((main_stream_step i ^^ k) x) \<and>
         (\<forall>j \<le> k. period_cntd (seeders_arr ((main_stream_step i ^^ j) x) i) 0
            = period_cntd (seeders_arr x i) 0 + int j * period_len (seeders_arr x i)) \<and>
         (\<exists>x2. seeder_cycle S i x = Some x2 \<and>
            period_cntd (seeders_arr x2 i) 0
              = period_cntd (seeders_arr x i) 0 + int k * period_len (seeders_arr x i) - S) \<and>
         (\<forall>us es1 es2.
            partitioned (grains_list x) us (es1 @ es2) \<and> length es1 = k \<and>
            grains_cnt x + int k \<le> grains_max x \<longrightarrow>
            partitioned (grains_list ((main_stream_step i ^^ k) x)) (rev es1 @ us) es2 \<and>
            grains_cnt ((main_stream_step i ^^ k) x) = grains_cnt x + int k \<and>
            (\<forall>j < k. out_begin (grains_arr ((main_stream_step i ^^ k) x) (es1 ! j))
               = period_cntd (seeders_arr x i) 0 + int j * period_len (seeders_arr x i)) \<and>
            (\<forall>n \<in> set us. grains_arr ((main_stream_step i ^^ k) x) n = grains_arr x n))"
proof -
  let ?x1 = "(main_stream_step i ^^ k) x"
  let ?c = "period_cntd (seeders_arr x i) 0" and ?P = "period_len (seeders_arr x i)"
  have P0: "0 \<le> ?P" using P by simp
  have m: "main_stream S i x = Some ?x1" by (rule main_stream_runs [OF rand P P32 c32 k b])
  have turn: "period_cntd (seeders_arr ((main_stream_step i ^^ j) x) i) 0 = ?c + int j * ?P"
    if "j \<le> k" for j
  proof -
    have "int j * ?P \<le> int k * ?P" using that P0 by (simp add: mult_right_mono)
    with b have "?c + int j * ?P \<le> 2147483647" by linarith
    from main_stream_steps_seeder [OF rand P0 P32 c32 this] show ?thesis by simp
  qed
  from seeder_cycle_countdown [OF on rand P P32 c32 S k b poly]
  have c: "\<exists>x2. seeder_cycle S i x = Some x2 \<and>
            period_cntd (seeders_arr x2 i) 0 = ?c + int k * ?P - S" .
  have pool: "partitioned (grains_list ?x1) (rev es1 @ us) es2 \<and>
              grains_cnt ?x1 = grains_cnt x + int k \<and>
              (\<forall>j < k. out_begin (grains_arr ?x1 (es1 ! j)) = ?c + int j * ?P) \<and>
              (\<forall>n \<in> set us. grains_arr ?x1 n = grains_arr x n)"
    if h: "partitioned (grains_list x) us (es1 @ es2) \<and> length es1 = k \<and>
           grains_cnt x + int k \<le> grains_max x"
    for us es1 es2
  proof -
    from h have p: "partitioned (grains_list x) us (es1 @ es2)" and l: "length es1 = k"
      and r: "grains_cnt x + int (length es1) \<le> grains_max x"
      by simp_all
    have b': "?c + int (length es1) * ?P \<le> 2147483647" using b by (simp add: l)
    from partitioned_cells(1) [OF p] have d: "set us \<inter> set es1 = {}" by auto
    from main_stream_steps_room [OF p r rand P0 P32 c32 b'] d show ?thesis
      unfolding l by blast
  qed
  from m turn c pool show ?thesis by blast
qed

theorem main_stream_spawns_on_schedule_witness:
  "main_stream 64 0 (playing 8) = Some ((main_stream_step 0 ^^ 7) (playing 8)) \<and>
   map (\<lambda>j. period_cntd (seeders_arr ((main_stream_step 0 ^^ j) (playing 8)) 0) 0)
     [0, 1, 2, 3, 4, 5, 6, 7] = [0, 10, 20, 30, 40, 50, 60, 70] \<and>
   (\<exists>x2. seeder_cycle 64 0 (playing 8) = Some x2 \<and> period_cntd (seeders_arr x2 0) 0 = 6) \<and>
   used_list (grains_list ((main_stream_step 0 ^^ 7) (playing 8))) = Some [6, 5, 4, 3, 2, 1, 0] \<and>
   empty_list (grains_list ((main_stream_step 0 ^^ 7) (playing 8))) = Some [7] \<and>
   grains_cnt ((main_stream_step 0 ^^ 7) (playing 8)) = 7 \<and>
   map (out_begin \<circ> grains_arr ((main_stream_step 0 ^^ 7) (playing 8))) [0, 1, 2, 3, 4, 5, 6]
     = [0, 10, 20, 30, 40, 50, 60]"
proof -
  let ?x = "playing 8"
  let ?x1 = "(main_stream_step 0 ^^ 7) ?x"
  let ?es = "[0, 1, 2, 3, 4, 5, 6] :: int list"
  note f = playing_fields [of 8]
  have P: "1 \<le> period_len (seeders_arr ?x 0)" "is_int32 (period_len (seeders_arr ?x 0))"
    "is_int32 (period_cntd (seeders_arr ?x 0) 0)" "(0::int) \<le> 64"
    by (simp_all add: f is_int32_def)
  have k: "int 7 = max 0 \<lceil>real_of_int (64 - period_cntd (seeders_arr ?x 0) 0)
                          / real_of_int (period_len (seeders_arr ?x 0))\<rceil>"
    by (simp add: f)
  have b: "period_cntd (seeders_arr ?x 0) 0 + int 7 * period_len (seeders_arr ?x 0) \<le> 2147483647"
    "poly_cnt (seeders_arr ?x 0) \<le> 1 \<or> 64 + period_len (seeders_arr ?x 0) \<le> 2147483647"
    by (simp_all add: f)
  have "partitioned (list_new (\<lambda>i. 0) 8) [] [0..8 - 1]"
    by (rule list_new_partitioned) simp
  then have p: "partitioned (grains_list ?x) [] (?es @ [7])"
    by (simp add: f int16_of_def upto.simps)
  have r: "grains_cnt ?x + int 7 \<le> grains_max ?x" by (simp add: f int16_of_def)
  note t = main_stream_spawns_on_schedule [OF f(1) f(2) P k b]
  from t have m: "main_stream 64 0 ?x = Some ?x1" by blast
  from t have turn: "\<And>j. j \<le> 7 \<Longrightarrow>
      period_cntd (seeders_arr ((main_stream_step 0 ^^ j) ?x) 0) 0
        = period_cntd (seeders_arr ?x 0) 0 + int j * period_len (seeders_arr ?x 0)"
    by blast
  from t obtain x2 where c: "seeder_cycle 64 0 ?x = Some x2"
    and cd: "period_cntd (seeders_arr x2 0) 0
          = period_cntd (seeders_arr ?x 0) 0 + int 7 * period_len (seeders_arr ?x 0) - 64"
    by blast
  from t have pool: "\<And>us es1 es2.
          partitioned (grains_list ?x) us (es1 @ es2) \<and> length es1 = 7 \<and>
          grains_cnt ?x + int 7 \<le> grains_max ?x \<Longrightarrow>
          partitioned (grains_list ?x1) (rev es1 @ us) es2 \<and>
          grains_cnt ?x1 = grains_cnt ?x + int 7 \<and>
          (\<forall>j < 7. out_begin (grains_arr ?x1 (es1 ! j))
             = period_cntd (seeders_arr ?x 0) 0 + int j * period_len (seeders_arr ?x 0))"
    by blast
  from pool [of "[]" ?es "[7]"] p r
  have q: "partitioned (grains_list ?x1) (rev ?es @ []) [7]"
    and n: "grains_cnt ?x1 = grains_cnt ?x + int 7"
    and ob: "\<And>j. j < 7 \<Longrightarrow> out_begin (grains_arr ?x1 (?es ! j))
             = period_cntd (seeders_arr ?x 0) 0 + int j * period_len (seeders_arr ?x 0)"
    by simp_all
  have u: "used_list (grains_list ?x1) = Some [6, 5, 4, 3, 2, 1, 0]"
    and e: "empty_list (grains_list ?x1) = Some [7]"
    using partitioned_walks [OF q] by simp_all
  have o: "map (out_begin \<circ> grains_arr ?x1) ?es = [0, 10, 20, 30, 40, 50, 60]"
    using ob [of 0] ob [of 1] ob [of 2] ob [of 3] ob [of 4] ob [of 5] ob [of 6]
    by (simp add: f)
  have tn: "map (\<lambda>j. period_cntd (seeders_arr ((main_stream_step 0 ^^ j) ?x) 0) 0)
     [0, 1, 2, 3, 4, 5, 6, 7] = [0, 10, 20, 30, 40, 50, 60, 70]"
    using turn [of 0] turn [of 1] turn [of 2] turn [of 3] turn [of 4] turn [of 5]
      turn [of 6] turn [of 7]
    by (simp add: f)
  have x2: "\<exists>x2. seeder_cycle 64 0 ?x = Some x2 \<and> period_cntd (seeders_arr x2 0) 0 = 6"
    using c cd by (simp add: f)
  from m tn x2 u e n o show ?thesis by (simp add: f)
qed

text \<open>
  Claim C2 as the specification states it does not hold when the pool is short of free
  slots: the engine of \<^verbatim>\<open>granular~ 2 1\<close> has one, the seeder of \<open>playing 1\<close> meets the
  hypotheses with \<open>c = 0\<close>, \<open>P = 10\<close>, and a block of \<open>64\<close> samples makes
  \<open>k = 7\<close>, but the main stream leaves one grain in the pool.
\<close>

theorem full_pool_counterexample:
  "is_on (seeders_arr (playing 1) 0) \<and>
   period_rand (seeders_arr (playing 1) 0) = 0 \<and>
   period_len (seeders_arr (playing 1) 0) = 10 \<and>
   period_cntd (seeders_arr (playing 1) 0) 0 = 0 \<and>
   max 0 \<lceil>real_of_int (64 - 0) / real_of_int 10\<rceil> = 7 \<and>
   grains_cnt (playing 1) = 0 \<and>
   map_option grains_cnt (main_stream 64 0 (playing 1)) = Some 1 \<and>
   Option.bind (main_stream 64 0 (playing 1)) (used_list \<circ> grains_list) = Some [0]"
proof -
  let ?x = "playing 1"
  let ?x1 = "main_stream_step 0 ?x"
  note f = playing_fields [of 1]
  have P: "1 \<le> period_len (seeders_arr ?x 0)" "is_int32 (period_len (seeders_arr ?x 0))"
    "is_int32 (period_cntd (seeders_arr ?x 0) 0)"
    by (simp_all add: f is_int32_def)
  have k: "int 7 = max 0 \<lceil>real_of_int (64 - period_cntd (seeders_arr ?x 0) 0)
                          / real_of_int (period_len (seeders_arr ?x 0))\<rceil>"
    by (simp add: f)
  have b: "period_cntd (seeders_arr ?x 0) 0 + int 7 * period_len (seeders_arr ?x 0) \<le> 2147483647"
    by (simp add: f)
  have m: "main_stream 64 0 ?x = Some ((main_stream_step 0 ^^ 6) ?x1)"
    using main_stream_runs [OF f(2) P k b] by (simp add: eval_nat_numeral funpow_swap1)
  have "partitioned (list_new (\<lambda>i. 0) 1) [] [0..1 - 1]"
    by (rule list_new_partitioned) simp
  then have p: "partitioned (grains_list ?x) [] (0 # [])"
    by (simp add: f int16_of_def upto.simps)
  have r: "grains_cnt ?x \<noteq> grains_max ?x" by (simp add: f int16_of_def)
  note st = main_stream_step_room [OF p r, where i = 0]
  have gm: "grains_max ?x1 = 1"
    by (simp add: main_stream_step_fields(3) f int16_of_def)
  have full: "grains_cnt ?x1 = grains_max ?x1"
    using st(2) gm by (simp add: f)
  note fl = main_stream_steps_full [OF full, where i = 0 and n = 6]
  have "grains_cnt ((main_stream_step 0 ^^ 6) ?x1) = 1"
    unfolding fl [THEN conjunct1] st(2) by (simp add: f)
  moreover have "used_list (grains_list ((main_stream_step 0 ^^ 6) ?x1)) = Some [0]"
    unfolding fl [THEN conjunct2, THEN conjunct2, THEN conjunct1]
    using partitioned_walks(1) [OF st(1)] by simp
  ultimately show ?thesis by (simp add: m f)
qed

section \<open>The control path\<close>

subsection \<open>The window of a seeder\<close>

lemma set_seeder_fields_begin:
  "src_begin (set_seeder_fields x argv s)
     = (if int32_of (max 0 (c_trunc32 (atom_getfloat (argv 2) * real_of_int (buff_n_frm s)))
                      + c_trunc32 (atom_getfloat (argv 3) * buff_msr s)) > buff_n_frm s
        then int32_of (buff_n_frm s - c_trunc32 (atom_getfloat (argv 3) * buff_msr s))
        else max 0 (c_trunc32 (atom_getfloat (argv 2) * real_of_int (buff_n_frm s))))"
  by (simp add: set_seeder_fields_def Let_def max_def)

lemma set_seeder_window:
  assumes "atom_is_long (argv 0)" and "0 \<le> int16_of (atom_getlong (argv 0))"
    and "int16_of (atom_getlong (argv 0)) < seeders_max x"
  shows "src_begin (seeders_arr (granular_set_seeder x 9 argv) (int16_of (atom_getlong (argv 0))))
           = src_begin (set_seeder_fields x argv (seeders_arr x (int16_of (atom_getlong (argv 0)))))"
    and "src_len (seeders_arr (granular_set_seeder x 9 argv) (int16_of (atom_getlong (argv 0))))
           = src_len (set_seeder_fields x argv (seeders_arr x (int16_of (atom_getlong (argv 0)))))"
    and "buff_n_frm (seeders_arr (granular_set_seeder x 9 argv) (int16_of (atom_getlong (argv 0))))
           = buff_n_frm (set_seeder_fields x argv (seeders_arr x (int16_of (atom_getlong (argv 0)))))"
proof -
  let ?i = "int16_of (atom_getlong (argv 0))"
  have c: "granular_check_args x ''set_seeder'' 9 argv 9 = (?i, x)"
    using assms(1-3) by (intro check_args_ok) simp_all
  have e: "?i \<noteq> ERR_ARG" using assms(2) by (simp add: ERR_ARG_def)
  show "src_begin (seeders_arr (granular_set_seeder x 9 argv) ?i)
           = src_begin (set_seeder_fields x argv (seeders_arr x ?i))"
    and "src_len (seeders_arr (granular_set_seeder x 9 argv) ?i)
           = src_len (set_seeder_fields x argv (seeders_arr x ?i))"
    and "buff_n_frm (seeders_arr (granular_set_seeder x 9 argv) ?i)
           = buff_n_frm (set_seeder_fields x argv (seeders_arr x ?i))"
    unfolding granular_set_seeder_def c
    using e by (simp_all add: Let_def my_err_def)
qed

lemma begin_window:
  "src_begin (seeders_arr (granular_begin x argc argv) (int16_of (atom_getlong (argv 0))))
     = (if int32_of (max 0 (c_trunc32 (atom_getfloat (argv 1)
                    * real_of_int (buff_n_frm (seeders_arr x (int16_of (atom_getlong (argv 0)))))))
             + src_len (seeders_arr x (int16_of (atom_getlong (argv 0)))))
           > buff_n_frm (seeders_arr x (int16_of (atom_getlong (argv 0))))
        then int32_of (buff_n_frm (seeders_arr x (int16_of (atom_getlong (argv 0))))
               - src_len (seeders_arr x (int16_of (atom_getlong (argv 0)))))
        else max 0 (c_trunc32 (atom_getfloat (argv 1)
                    * real_of_int (buff_n_frm (seeders_arr x (int16_of (atom_getlong (argv 0))))))))"
  "src_len (seeders_arr (granular_begin x argc argv) (int16_of (atom_getlong (argv 0))))
     = src_len (seeders_arr x (int16_of (atom_getlong (argv 0))))"
  "buff_n_frm (seeders_arr (granular_begin x argc argv) (int16_of (atom_getlong (argv 0))))
     = buff_n_frm (seeders_arr x (int16_of (atom_getlong (argv 0))))"
  by (simp_all add: granular_begin_def Let_def max_def)

text \<open>
  Claim C3 does not hold of the code. When the source length \<open>l\<close> of the seeder exceeds
  the number \<open>n\<close> of frames of its buffer, \<^verbatim>\<open>granular_begin\<close> stores the begin
  \<open>n - l\<close>, a negative one, whatever the fraction: the second test, made after the
  clamp to \<open>0\<close>, replaces the begin by \<open>n - l\<close> without looking at its sign. The same
  holds of \<^verbatim>\<open>granular_set_seeder\<close> for the length \<open>l\<close> it computes from its argument 3.
  (The hypotheses on the ranges say that the cast of the product and the sums are
  \<^verbatim>\<open>t_int32\<close> values, so that nothing depends on an overflow.)
\<close>

theorem begin_negative_beyond_buffer:
  assumes i: "i = int16_of (atom_getlong (argv 0))"
    and n: "n = buff_n_frm (seeders_arr x i)"
  shows "(let l = src_len (seeders_arr x i);
              b = max 0 (c_trunc (atom_getfloat (argv 1) * real_of_int n))
          in n < l \<and> is_int32 b \<and> is_int32 (b + l) \<and> is_int32 (n - l) \<longrightarrow>
             src_begin (seeders_arr (granular_begin x argc argv) i) = n - l \<and>
             src_begin (seeders_arr (granular_begin x argc argv) i) < 0) \<and>
         (let l = c_trunc (atom_getfloat (argv 3) * buff_msr (seeders_arr x i));
              b = max 0 (c_trunc (atom_getfloat (argv 2) * real_of_int n))
          in atom_is_long (argv 0) \<and> 0 \<le> i \<and> i < seeders_max x \<and>
             n < l \<and> is_int32 l \<and> is_int32 b \<and> is_int32 (b + l) \<and> is_int32 (n - l) \<longrightarrow>
             src_begin (seeders_arr (granular_set_seeder x 9 argv) i) = n - l \<and>
             src_begin (seeders_arr (granular_set_seeder x 9 argv) i) < 0)"
proof -
  have cast: "max 0 (c_trunc32 r) = max 0 (c_trunc r)" if "is_int32 (max 0 (c_trunc r))" for r
  proof (cases "is_int32 (c_trunc r)")
    case True
    then show ?thesis by (simp add: c_trunc32_id)
  next
    case False
    with that have "c_trunc r < 0" by (auto simp: is_int32_def max_def split: if_splits)
    with False show ?thesis by (simp add: c_trunc32_def)
  qed
  have A: "src_begin (seeders_arr (granular_begin x argc argv) i) = n - l \<and>
           src_begin (seeders_arr (granular_begin x argc argv) i) < 0"
    if l: "l = src_len (seeders_arr x i)"
      and b: "b = max 0 (c_trunc (atom_getfloat (argv 1) * real_of_int n))"
      and h: "n < l \<and> is_int32 b \<and> is_int32 (b + l) \<and> is_int32 (n - l)"
    for l b
  proof -
    have b32: "max 0 (c_trunc32 (atom_getfloat (argv 1) * real_of_int n)) = b"
      using h cast [of "atom_getfloat (argv 1) * real_of_int n"] by (simp add: b)
    have s: "int32_of (b + l) = b + l" "int32_of (n - l) = n - l"
      using h by (simp_all add: int32_of_id)
    have "0 \<le> b" by (simp add: b)
    with h have gt: "n < b + l" by linarith
    have e: "src_begin (seeders_arr (granular_begin x argc argv) i)
        = (if int32_of (max 0 (c_trunc32 (atom_getfloat (argv 1) * real_of_int n)) + l) > n
           then int32_of (n - l)
           else max 0 (c_trunc32 (atom_getfloat (argv 1) * real_of_int n)))"
      using begin_window(1) [where x = x and argc = argc and argv = argv] by (simp add: i n l)
    have "src_begin (seeders_arr (granular_begin x argc argv) i) = n - l"
      unfolding e b32 s using gt by simp
    with h show ?thesis by simp
  qed
  have B: "src_begin (seeders_arr (granular_set_seeder x 9 argv) i) = n - l \<and>
           src_begin (seeders_arr (granular_set_seeder x 9 argv) i) < 0"
    if l: "l = c_trunc (atom_getfloat (argv 3) * buff_msr (seeders_arr x i))"
      and b: "b = max 0 (c_trunc (atom_getfloat (argv 2) * real_of_int n))"
      and h: "atom_is_long (argv 0) \<and> 0 \<le> i \<and> i < seeders_max x \<and>
              n < l \<and> is_int32 l \<and> is_int32 b \<and> is_int32 (b + l) \<and> is_int32 (n - l)"
    for l b
  proof -
    from h have v: "atom_is_long (argv 0)" "0 \<le> int16_of (atom_getlong (argv 0))"
      "int16_of (atom_getlong (argv 0)) < seeders_max x"
      by (simp_all add: i)
    have b32: "max 0 (c_trunc32 (atom_getfloat (argv 2) * real_of_int n)) = b"
      using h cast [of "atom_getfloat (argv 2) * real_of_int n"] by (simp add: b)
    have l32: "c_trunc32 (atom_getfloat (argv 3) * buff_msr (seeders_arr x i)) = l"
      using h by (simp add: l c_trunc32_id)
    have s: "int32_of (b + l) = b + l" "int32_of (n - l) = n - l"
      using h by (simp_all add: int32_of_id)
    have "0 \<le> b" by (simp add: b)
    with h have gt: "n < b + l" by linarith
    have e: "src_begin (seeders_arr (granular_set_seeder x 9 argv) i)
        = (if int32_of (max 0 (c_trunc32 (atom_getfloat (argv 2) * real_of_int n))
                         + c_trunc32 (atom_getfloat (argv 3) * buff_msr (seeders_arr x i))) > n
           then int32_of (n - c_trunc32 (atom_getfloat (argv 3) * buff_msr (seeders_arr x i)))
           else max 0 (c_trunc32 (atom_getfloat (argv 2) * real_of_int n)))"
      using set_seeder_window(1) [where argv = argv and x = x, OF v]
      by (simp add: i n set_seeder_fields_begin)
    have "src_begin (seeders_arr (granular_set_seeder x 9 argv) i) = n - l"
      unfolding e b32 l32 s using gt by simp
    with h show ?thesis by simp
  qed
  from A B show ?thesis unfolding Let_def by blast
qed


theorem begin_negative_beyond_buffer_witness:
  "buff_n_frm (seeders_arr short_buffer_engine 0) = 1000 \<and>
   src_len (seeders_arr short_buffer_engine 0) = 4410 \<and>
   src_begin (seeders_arr (granular_begin short_buffer_engine 2
                             (args_of [A_LONG 0, A_FLOAT (1 / 2)])) 0) = - 3410 \<and>
   src_begin (seeders_arr (granular_set_seeder short_buffer_engine 9
       (args_of [A_LONG 0, A_FLOAT 1, A_FLOAT (1 / 2), A_FLOAT 100, A_FLOAT 0,
                 A_FLOAT (37 / 100), A_FLOAT 1, A_FLOAT 0, A_LONG 1])) 0) = - 3410"
proof -
  let ?x = "short_buffer_engine"
  let ?a = "args_of [A_LONG 0, A_FLOAT (1 / 2)]"
  let ?b = "args_of [A_LONG 0, A_FLOAT 1, A_FLOAT (1 / 2), A_FLOAT 100, A_FLOAT 0,
                 A_FLOAT (37 / 100), A_FLOAT 1, A_FLOAT 0, A_LONG 1]"
  have s: "buff_n_frm (seeders_arr ?x 0) = 1000" "src_len (seeders_arr ?x 0) = 4410"
    "buff_msr (seeders_arr ?x 0) = 441 / 10" "seeders_max ?x = 2"
    by (simp_all add: short_buffer_engine_def small_engine_def buffer_found_seeder
          buffer_found_frame engine_seeder0 engine_fields c_trunc32_id is_int32_def c_trunc_def
          int32_of_def)
  have a: "?a 1 = A_FLOAT (1 / 2)"
    and ia: "0 = int16_of (atom_getlong (?a 0))"
    by (simp_all add: args_of_def int16_of_def)
  have b: "?b 2 = A_FLOAT (1 / 2)" "?b 3 = A_FLOAT 100" "atom_is_long (?b 0)"
    and ib: "0 = int16_of (atom_getlong (?b 0))"
    by (simp_all add: args_of_def int16_of_def)
  have n: "1000 = buff_n_frm (seeders_arr ?x 0)" by (simp add: s)
  note ta = begin_negative_beyond_buffer [where argv = ?a and x = ?x and argc = 2, OF ia n,
              THEN conjunct1, unfolded Let_def]
  note tb = begin_negative_beyond_buffer [where argv = ?b and x = ?x and argc = 9, OF ib n,
              THEN conjunct2, unfolded Let_def]
  have "src_begin (seeders_arr (granular_begin ?x 2 ?a) 0) = - 3410"
    using ta by (simp add: a s c_trunc_def is_int32_def)
  moreover have "src_begin (seeders_arr (granular_set_seeder ?x 9 ?b) 0) = - 3410"
    using tb by (simp add: b s c_trunc_def is_int32_def)
  ultimately show ?thesis by (simp add: s)
qed

text \<open>
  The sum \<^verbatim>\<open>src_begin + src_len\<close> of the second test is a 32-bit sum: on \<open>playing 8\<close>
  (44100 frames, a length of 200 samples) the message \<^verbatim>\<open>begin 0 48695.772\<close> leaves a
  begin far beyond the buffer, the sum having wrapped below zero.
\<close>

lemma begin_sum_wraps:
  "src_begin (seeders_arr (granular_begin (playing 8) 2
                             (args_of [A_LONG 0, A_FLOAT (12173943 / 250)])) 0) = 2147483545"
proof -
  let ?a = "args_of [A_LONG 0, A_FLOAT (12173943 / 250)]"
  have a: "int16_of (atom_getlong (?a 0)) = 0" "?a 1 = A_FLOAT (12173943 / 250)"
    by (simp_all add: args_of_def int16_of_def)
  show ?thesis
    using begin_window(1) [where x = "playing 8" and argc = 2 and argv = ?a]
    by (simp add: a playing_fields c_trunc32_id is_int32_def c_trunc_def int32_of_def)
qed

subsection \<open>The setters of one field\<close>

text \<open>
  Claim C4 does not hold of the code. Each of the eight setters of one field writes the
  cell of \<^verbatim>\<open>seeders_arr\<close> that the first argument names, after the cast to
  \<^verbatim>\<open>t_int16\<close>, whatever the number of arguments and whatever the index: no argument is
  checked (\<^verbatim>\<open>poly\<close> checks the number of streams only). And \<^verbatim>\<open>granular_check_args\<close>
  compares the index after the same cast, so that \<^verbatim>\<open>focus\<close> accepts every integer whose
  low 16 bits are an index in range.
\<close>

theorem setters_write_unchecked:
  "ampl (seeders_arr (granular_ampl x argc argv) (int16_of (atom_getlong (argv 0))))
     = atom_getfloat (argv 1) \<and>
   speed (seeders_arr (granular_speed x argc argv) (int16_of (atom_getlong (argv 0))))
     = atom_getfloat (argv 1) \<and>
   period_rand (seeders_arr (granular_period_rand x argc argv) (int16_of (atom_getlong (argv 0))))
     = atom_getfloat (argv 1) \<and>
   period (seeders_arr (granular_period x argc argv) (int16_of (atom_getlong (argv 0))))
     = atom_getfloat (argv 1) \<and>
   shift (seeders_arr (granular_shift x argc argv) (int16_of (atom_getlong (argv 0))))
     = atom_getfloat (argv 1) \<and>
   src_len_ms (seeders_arr (granular_length x argc argv) (int16_of (atom_getlong (argv 0))))
     = atom_getfloat (argv 1) \<and>
   src_begin (seeders_arr (granular_begin x argc argv) (int16_of (atom_getlong (argv 0))))
     = (if int32_of (max 0 (c_trunc32 (atom_getfloat (argv 1)
                    * real_of_int (buff_n_frm (seeders_arr x (int16_of (atom_getlong (argv 0)))))))
             + src_len (seeders_arr x (int16_of (atom_getlong (argv 0)))))
           > buff_n_frm (seeders_arr x (int16_of (atom_getlong (argv 0))))
        then int32_of (buff_n_frm (seeders_arr x (int16_of (atom_getlong (argv 0))))
               - src_len (seeders_arr x (int16_of (atom_getlong (argv 0)))))
        else max 0 (c_trunc32 (atom_getfloat (argv 1)
                    * real_of_int (buff_n_frm (seeders_arr x (int16_of (atom_getlong (argv 0)))))))) \<and>
   (1 \<le> int16_of (c_trunc (atom_getfloat (argv 1))) \<and>
    int16_of (c_trunc (atom_getfloat (argv 1))) \<le> poly_max x \<longrightarrow>
    poly_cnt (seeders_arr (granular_poly x argc argv) (int16_of (atom_getlong (argv 0))))
      = int16_of (c_trunc (atom_getfloat (argv 1)))) \<and>
   (atom_is_long (argv 0) \<and> 0 \<le> int16_of (atom_getlong (argv 0)) \<and>
    int16_of (atom_getlong (argv 0)) < seeders_max x \<longrightarrow>
    granular_focus x 1 argv = outlet_bang (x\<lparr>seeders_foc := int16_of (atom_getlong (argv 0))\<rparr>))"
proof -
  have f: "granular_focus x 1 argv = outlet_bang (x\<lparr>seeders_foc := int16_of (atom_getlong (argv 0))\<rparr>)"
    if "atom_is_long (argv 0) \<and> 0 \<le> int16_of (atom_getlong (argv 0)) \<and>
        int16_of (atom_getlong (argv 0)) < seeders_max x"
  proof -
    from that have "granular_check_args x ''focus'' 1 argv 1 = (int16_of (atom_getlong (argv 0)), x)"
      by (intro check_args_ok) simp_all
    with that show ?thesis by (simp add: granular_focus_def ERR_ARG_def)
  qed
  note b = begin_window(1) [where x = x and argc = argc and argv = argv]
  have p: "poly_cnt (seeders_arr (granular_poly x argc argv) (int16_of (atom_getlong (argv 0))))
      = int16_of (c_trunc (atom_getfloat (argv 1)))"
    if "1 \<le> int16_of (c_trunc (atom_getfloat (argv 1))) \<and>
        int16_of (c_trunc (atom_getfloat (argv 1))) \<le> poly_max x"
    using that by (simp add: granular_poly_def Let_def)
  have "ampl (seeders_arr (granular_ampl x argc argv) (int16_of (atom_getlong (argv 0))))
          = atom_getfloat (argv 1)"
    and "speed (seeders_arr (granular_speed x argc argv) (int16_of (atom_getlong (argv 0))))
          = atom_getfloat (argv 1)"
    and "period_rand (seeders_arr (granular_period_rand x argc argv) (int16_of (atom_getlong (argv 0))))
          = atom_getfloat (argv 1)"
    and "period (seeders_arr (granular_period x argc argv) (int16_of (atom_getlong (argv 0))))
          = atom_getfloat (argv 1)"
    and "shift (seeders_arr (granular_shift x argc argv) (int16_of (atom_getlong (argv 0))))
          = atom_getfloat (argv 1)"
    and "src_len_ms (seeders_arr (granular_length x argc argv) (int16_of (atom_getlong (argv 0))))
          = atom_getfloat (argv 1)"
    by (simp_all add: granular_ampl_def granular_speed_def granular_period_rand_def
          granular_period_def granular_shift_def granular_length_def Let_def)
  with f b p show ?thesis by blast
qed


theorem setters_write_unchecked_witness:
  "seeders_max small_engine = 2 \<and>
   ampl (seeders_arr small_engine 5) = 0 \<and>
   ampl (seeders_arr (granular_ampl small_engine 2 (args_of [A_LONG 5, A_FLOAT (1 / 2)])) 5)
     = 1 / 2 \<and>
   ampl (seeders_arr small_engine 0) = 1 \<and>
   ampl (seeders_arr (granular_ampl small_engine 3
                        (args_of [A_LONG 0, A_FLOAT (1 / 2), A_FLOAT 7])) 0) = 1 / 2 \<and>
   poly_cnt (seeders_arr small_engine 5) = 0 \<and>
   poly_cnt (seeders_arr (granular_poly small_engine 2 (args_of [A_LONG 5, A_FLOAT 3])) 5) = 3 \<and>
   seeders_foc small_engine = 0 \<and>
   seeders_foc (granular_focus small_engine 1 (args_of [A_LONG 65537])) = 1"
proof -
  let ?x = "small_engine"
  let ?a = "args_of [A_LONG 5, A_FLOAT (1 / 2)]"
  let ?b = "args_of [A_LONG 0, A_FLOAT (1 / 2), A_FLOAT 7]"
  let ?c = "args_of [A_LONG 5, A_FLOAT 3]"
  let ?d = "args_of [A_LONG 65537]"
  have e: "seeders_max ?x = 2" "poly_max ?x = 10" "seeders_foc ?x = 0"
    "ampl (seeders_arr ?x 5) = 0" "ampl (seeders_arr ?x 0) = 1" "poly_cnt (seeders_arr ?x 5) = 0"
    by (simp_all add: small_engine_def engine_def granular_new_def quiet_host_def args_of_def
          seeder_init_def zero_seeder_def Let_def int16_of_def POLY_MAX_def)
  have a: "int16_of (atom_getlong (?a 0)) = 5" "atom_getfloat (?a 1) = 1 / 2"
    and b: "int16_of (atom_getlong (?b 0)) = 0" "atom_getfloat (?b 1) = 1 / 2"
    and c: "int16_of (atom_getlong (?c 0)) = 5" "int16_of (c_trunc (atom_getfloat (?c 1))) = 3"
    and d: "int16_of (atom_getlong (?d 0)) = 1" "atom_is_long (?d 0)"
    by (simp_all add: args_of_def int16_of_def c_trunc_def)
  note ta = setters_write_unchecked [where x = ?x and argc = 2 and argv = ?a, THEN conjunct1]
  note tb = setters_write_unchecked [where x = ?x and argc = 3 and argv = ?b, THEN conjunct1]
  note tc = setters_write_unchecked [where x = ?x and argc = 2 and argv = ?c,
              THEN conjunct2, THEN conjunct2, THEN conjunct2, THEN conjunct2, THEN conjunct2,
              THEN conjunct2, THEN conjunct2, THEN conjunct1]
  note td = setters_write_unchecked [where x = ?x and argc = 1 and argv = ?d,
              THEN conjunct2, THEN conjunct2, THEN conjunct2, THEN conjunct2, THEN conjunct2,
              THEN conjunct2, THEN conjunct2, THEN conjunct2]
  have "ampl (seeders_arr (granular_ampl ?x 2 ?a) 5) = 1 / 2"
    using ta by (simp add: a)
  moreover have "ampl (seeders_arr (granular_ampl ?x 3 ?b) 0) = 1 / 2"
    using tb by (simp add: b)
  moreover have "poly_cnt (seeders_arr (granular_poly ?x 2 ?c) 5) = 3"
    using tc by (simp add: c e)
  moreover have "seeders_foc (granular_focus ?x 1 ?d) = 1"
    using td by (simp add: d e outlet_bang_def)
  ultimately show ?thesis by (simp add: e)
qed

section \<open>Properties of the output finisher\<close>

lemma fold_sample_cases:
  "fold_sample v =
     (if v < -1 then -2 - v else if v \<le> 1 then v else if v \<le> 3 then 2 - v else v - 4)"
  by (simp add: fold_sample_def Let_def)

lemma perform_fold_result:
  "0 \<le> n \<Longrightarrow>
   perform_fold n out p =
     Some (\<lambda>i. if p \<le> i \<and> i < p + n then fold_sample (out i) else out i)"
proof (induction "nat n" arbitrary: n out p)
  case 0
  then have "n = 0" by simp
  then show ?case by (auto simp: perform_fold.simps fun_eq_iff)
next
  case (Suc k)
  then have k: "k = nat (n - 1)" and n1: "0 \<le> n - 1" and n0: "n \<noteq> 0"
    by auto
  have "perform_fold n out p
          = perform_fold (n - 1) (out(p := fold_sample (out p))) (p + 1)"
    using n0 by (subst perform_fold.simps) simp
  also have "\<dots> = Some (\<lambda>i. if p + 1 \<le> i \<and> i < p + 1 + (n - 1)
                               then fold_sample ((out(p := fold_sample (out p))) i)
                               else (out(p := fold_sample (out p))) i)"
    by (rule Suc(1) [OF k n1])
  also have "\<dots> = Some (\<lambda>i. if p \<le> i \<and> i < p + n then fold_sample (out i) else out i)"
    using n1 by (auto simp: fun_eq_iff)
  finally show ?case .
qed

text \<open>
  Claim C1, as the code has it. The finisher returns for every block size
  \<open>sampleframes \<ge> 0\<close>, and every sample \<open>v\<close> of the block is left unchanged when
  \<open>-1 \<le> v \<le> 1\<close>, becomes \<open>2 - v\<close> when \<open>1 < v \<le> 3\<close>, becomes \<open>v - 4\<close> when
  \<open>v > 3\<close> (the reflected value is below \<open>-1\<close> and the second test reflects it again),
  and becomes \<open>-2 - v\<close> when \<open>v < -1\<close>. The result lies in the unit range exactly when
  \<open>-3 \<le> v \<le> 5\<close>. On the spec's sample values: \<open>0.5\<close>, \<open>1.2\<close>, \<open>-1.3\<close> and \<open>1\<close>
  give \<open>0.5\<close>, \<open>0.8\<close>, \<open>-0.7\<close> and \<open>1\<close>.
\<close>

theorem perform_fold_reflects:
  assumes "0 \<le> sampleframes"
  shows "\<exists>out'. perform_fold sampleframes out 0 = Some out' \<and>
           (\<forall>i. 0 \<le> i \<and> i < sampleframes \<longrightarrow>
              out' i = fold_sample (out i) \<and>
              (-1 \<le> out i \<and> out i \<le> 1 \<longrightarrow> out' i = out i) \<and>
              (1 < out i \<and> out i \<le> 3 \<longrightarrow> out' i = 2 - out i) \<and>
              (3 < out i \<longrightarrow> out' i = out i - 4) \<and>
              (out i < -1 \<longrightarrow> out' i = -2 - out i) \<and>
              ((-1 \<le> out' i \<and> out' i \<le> 1) = (-3 \<le> out i \<and> out i \<le> 5))) \<and>
           (\<forall>i. i < 0 \<or> sampleframes \<le> i \<longrightarrow> out' i = out i) \<and>
           fold_sample (1/2) = 1/2 \<and> fold_sample (12/10) = 8/10 \<and>
           fold_sample (-13/10) = -7/10 \<and> fold_sample 1 = 1"
proof -
  let ?out' = "\<lambda>i. if 0 \<le> i \<and> i < 0 + sampleframes then fold_sample (out i) else out i"
  have run: "perform_fold sampleframes out 0 = Some ?out'"
    by (rule perform_fold_result [OF assms])
  have inside: "\<forall>i. 0 \<le> i \<and> i < sampleframes \<longrightarrow>
              ?out' i = fold_sample (out i) \<and>
              (-1 \<le> out i \<and> out i \<le> 1 \<longrightarrow> ?out' i = out i) \<and>
              (1 < out i \<and> out i \<le> 3 \<longrightarrow> ?out' i = 2 - out i) \<and>
              (3 < out i \<longrightarrow> ?out' i = out i - 4) \<and>
              (out i < -1 \<longrightarrow> ?out' i = -2 - out i) \<and>
              ((-1 \<le> ?out' i \<and> ?out' i \<le> 1) = (-3 \<le> out i \<and> out i \<le> 5))"
    by (auto simp: fold_sample_cases)
  have outside: "\<forall>i. i < 0 \<or> sampleframes \<le> i \<longrightarrow> ?out' i = out i"
    by auto
  have vals: "fold_sample (1/2) = 1/2 \<and> fold_sample (12/10) = 8/10 \<and>
              fold_sample (-13/10) = -7/10 \<and> fold_sample 1 = 1"
    by (simp add: fold_sample_cases)
  from run inside outside vals show ?thesis by blast
qed

theorem perform_fold_reflects_witness:
  "\<exists>out'. perform_fold 5 ((\<lambda>i. 0)(0 := 1/2, 1 := 12/10, 2 := -13/10, 3 := 1, 4 := 7/2)) 0
             = Some out' \<and>
          out' 0 = 1/2 \<and> out' 1 = 8/10 \<and> out' 2 = -7/10 \<and> out' 3 = 1 \<and> out' 4 = -1/2"
proof -
  let ?w = "(\<lambda>i::int. 0::real)(0 := 1/2, 1 := 12/10, 2 := -13/10, 3 := 1, 4 := 7/2)"
  have h: "(0::int) \<le> 5" by simp
  from perform_fold_reflects [OF h, of ?w]
  obtain out' where run: "perform_fold 5 ?w 0 = Some out'"
    and each: "\<forall>i. 0 \<le> i \<and> i < 5 \<longrightarrow> out' i = fold_sample (?w i)"
    by blast
  have "out' 0 = fold_sample (?w 0)" "out' 1 = fold_sample (?w 1)"
       "out' 2 = fold_sample (?w 2)" "out' 3 = fold_sample (?w 3)"
       "out' 4 = fold_sample (?w 4)"
    using each by simp_all
  then have "out' 0 = 1/2 \<and> out' 1 = 8/10 \<and> out' 2 = -7/10 \<and> out' 3 = 1 \<and> out' 4 = -1/2"
    by (simp add: fold_sample_cases)
  with run show ?thesis by blast
qed

text \<open>
  Claim C1 as the spec states it does not hold of the code: the sample \<open>3.5\<close> is
  above \<open>1\<close>, and the finisher maps it to \<open>-0.5\<close>, not to \<open>2 - 3.5 = -1.5\<close>; the
  samples \<open>2.5\<close> and \<open>3.5\<close> lie beyond \<open>[-2, 2]\<close> and both end in the unit range.
\<close>

theorem fold_sample_counterexample:
  "(1::real) < 7/2 \<and> fold_sample (7/2) = -1/2 \<and> fold_sample (7/2) \<noteq> 2 - 7/2 \<and>
   (2::real) < 5/2 \<and> fold_sample (5/2) = -1/2 \<and>
   -1 \<le> fold_sample (5/2) \<and> fold_sample (5/2) \<le> 1 \<and>
   -1 \<le> fold_sample (7/2) \<and> fold_sample (7/2) \<le> 1"
  by (simp add: fold_sample_cases)

end
